theory Spec2Isabelle
  imports Complex_Main "HOL-Library.Char_ord" "HOL-Library.List_Lexorder"
begin


section \<open>Ordered keys and byte strings\<close>

text \<open>
  Every key and most values of the database are built with \<^verbatim>\<open>ordered.Encode\<close> of the
  library rsc.io/ordered, whose contract is: the encoding is self-delimiting, can be decoded
  item by item, and comparing two encodings as bytes is comparing the encoded tuples.
  A byte string is therefore kept here in decoded form, as the list of items it holds:
  \<^verbatim>\<open>ordered.Encode(a, b)\<close> is \<open>[a, b]\<close>, \<^verbatim>\<open>append(x, y...)\<close> is \<open>x @ y\<close>,
  \<^verbatim>\<open>ordered.Inf\<close> is \<open>OInf\<close>, and bytes that are not an encoding
  (raw JSON, \<^verbatim>\<open>ordered.Raw\<close>) are one item \<open>ORaw\<close>. The order of byte strings is the
  lexicographic order of the item lists, a proper prefix below its extensions.
\<close>

datatype oval = OInt int | OStr string | ORaw string | OInf

type_synonym bytes = "oval list"

text \<open>
  Items of different types compare by type: a string is below raw bytes, raw bytes are
  below an integer, and \<^verbatim>\<open>ordered.Inf\<close> is above everything.
\<close>

fun oval_rank :: "oval \<Rightarrow> nat" where
  "oval_rank (OStr _) = 0"
| "oval_rank (ORaw _) = 1"
| "oval_rank (OInt _) = 2"
| "oval_rank OInf = 3"

fun oval_less :: "oval \<Rightarrow> oval \<Rightarrow> bool" where
  "oval_less (OInt a) (OInt b) = (a < b)"
| "oval_less (OStr a) (OStr b) = (a < b)"
| "oval_less (ORaw a) (ORaw b) = (a < b)"
| "oval_less x y = (oval_rank x < oval_rank y)"

instantiation oval :: linorder
begin

definition less_oval :: "oval \<Rightarrow> oval \<Rightarrow> bool" where
  "less_oval x y = oval_less x y"

definition less_eq_oval :: "oval \<Rightarrow> oval \<Rightarrow> bool" where
  "less_eq_oval x y = (x = y \<or> oval_less x y)"

instance
proof
  fix x y z :: oval
  show "(x < y) = (x \<le> y \<and> \<not> y \<le> x)"
    by (cases x; cases y) (auto simp: less_oval_def less_eq_oval_def)
  show "x \<le> x"
    by (simp add: less_eq_oval_def)
  show "x \<le> y \<Longrightarrow> y \<le> z \<Longrightarrow> x \<le> z"
    by (cases x; cases y; cases z) (auto simp: less_eq_oval_def)
  show "x \<le> y \<Longrightarrow> y \<le> x \<Longrightarrow> x = y"
    by (cases x; cases y) (auto simp: less_eq_oval_def)
  show "x \<le> y \<or> y \<le> x"
    by (cases x; cases y) (auto simp: less_eq_oval_def)
qed

end

text \<open>
  \<^verbatim>\<open>ordered.DecodePrefix(b, &t)\<close> with \<open>t\<close> an int64: the first item must be an
  integer; the rest of the bytes is returned. \<open>None\<close> is the decoding error.
\<close>

fun DecodePrefix_int :: "bytes \<Rightarrow> (int \<times> bytes) option" where
  "DecodePrefix_int (OInt t # rest) = Some (t, rest)"
| "DecodePrefix_int _ = None"

text \<open>\<^verbatim>\<open>ordered.DecodePrefix(b, nil, &t)\<close>: skip one item of any kind, then an int64.\<close>

fun DecodePrefix_skip_int :: "bytes \<Rightarrow> (int \<times> bytes) option" where
  "DecodePrefix_skip_int (_ # OInt t # rest) = Some (t, rest)"
| "DecodePrefix_skip_int _ = None"

text \<open>\<^verbatim>\<open>ordered.Decode(b, &t)\<close>: the whole of \<open>b\<close> is one int64.\<close>

fun Decode_int :: "bytes \<Rightarrow> int option" where
  "Decode_int [OInt t] = Some t"
| "Decode_int _ = None"

section \<open>The in-memory database (storage.MemDB)\<close>

text \<open>
  \<^verbatim>\<open>memDB.data\<close> is an ordered map (rsc.io/omap) from key to value: an association list
  kept in key order. Locks and the reader/writer mutex are not modelled: every
  operation runs alone.
\<close>

type_synonym memDB = "(bytes \<times> bytes) list"

definition memDB_wf :: "memDB \<Rightarrow> bool" where
  "memDB_wf db = (sorted (map fst db) \<and> distinct (map fst db))"

definition memDB_Get :: "memDB \<Rightarrow> bytes \<Rightarrow> bytes option" where
  "memDB_Get db key = map_of db key"

definition memDB_Delete :: "memDB \<Rightarrow> bytes \<Rightarrow> memDB" where
  "memDB_Delete db key = filter (\<lambda>kv. fst kv \<noteq> key) db"

definition memDB_Set :: "memDB \<Rightarrow> bytes \<Rightarrow> bytes \<Rightarrow> memDB" where
  "memDB_Set db key val = insort_key fst (key, val) (memDB_Delete db key)"

definition memDB_DeleteRange :: "memDB \<Rightarrow> bytes \<Rightarrow> bytes \<Rightarrow> memDB" where
  "memDB_DeleteRange db start end = filter (\<lambda>kv. \<not> (start \<le> fst kv \<and> fst kv \<le> end)) db"

text \<open>Scan yields the pairs with \<open>start \<le> key \<le> end\<close> in key order.\<close>

definition memDB_Scan :: "memDB \<Rightarrow> bytes \<Rightarrow> bytes \<Rightarrow> (bytes \<times> bytes) list" where
  "memDB_Scan db start end = filter (\<lambda>kv. start \<le> fst kv \<and> fst kv \<le> end) db"

text \<open>
  A \<^verbatim>\<open>memBatch\<close> is the list of its staged operations; \<^verbatim>\<open>Apply\<close> runs them in order.
  (\<^verbatim>\<open>memBatch.Apply\<close> does not clear the list, so \<open>memBatch_Apply\<close> returns the
  database only and the batch stays as it is.)
\<close>

datatype batch_op = OpSet bytes bytes | OpDelete bytes | OpDeleteRange bytes bytes

type_synonym memBatch = "batch_op list"

fun apply_op :: "batch_op \<Rightarrow> memDB \<Rightarrow> memDB" where
  "apply_op (OpSet k v) db = memDB_Set db k v"
| "apply_op (OpDelete k) db = memDB_Delete db k"
| "apply_op (OpDeleteRange s e) db = memDB_DeleteRange db s e"

definition memBatch_Apply :: "memBatch \<Rightarrow> memDB \<Rightarrow> memDB" where
  "memBatch_Apply b db = fold apply_op b db"

section \<open>Time-indexed storage (package timed)\<close>

text \<open>
  \<^verbatim>\<open>DBTime\<close> is an int64. \<^verbatim>\<open>now\<close> reads the wall clock (\<open>clock\<close>, an input) and the
  process-wide counter \<^verbatim>\<open>lastTime\<close>, and returns the new time, which is also
  the new value of the counter. The increment wraps as int64 addition does.
  The compare-and-swap retry loop has one iteration when nothing runs concurrently.
\<close>

definition wrap64 :: "int \<Rightarrow> int" where
  "wrap64 x = (x + 2 ^ 63) mod 2 ^ 64 - 2 ^ 63"

definition now :: "int \<Rightarrow> int \<Rightarrow> int" where
  "now clock lastTime = (if clock \<le> lastTime then wrap64 (lastTime + 1) else clock)"

record Entry =
  ModTime :: int
  Kind :: string
  Key :: bytes
  Val :: bytes

definition primary_key :: "string \<Rightarrow> bytes \<Rightarrow> bytes" where
  "primary_key kind key = [OStr kind] @ key"

definition index_key :: "string \<Rightarrow> int \<Rightarrow> bytes \<Rightarrow> bytes" where
  "index_key kind t key = [OStr (kind @ ''ByTime''), OInt t] @ key"

text \<open>
  \<^verbatim>\<open>timed.Set\<close> reads \<open>db\<close>, appends its updates to the batch \<open>b\<close> and advances the
  counter. The result is the panic message, or the batch and the counter.
\<close>

definition timed_Set ::
  "memDB \<Rightarrow> memBatch \<Rightarrow> string \<Rightarrow> bytes \<Rightarrow> bytes \<Rightarrow> int \<Rightarrow> int \<Rightarrow> string + (memBatch \<times> int)" where
  "timed_Set db b kind key val clock lastTime =
     (let t = now clock lastTime;
          dkey = primary_key kind key;
          news = [OpSet (index_key kind t key) [], OpSet dkey ([OInt t] @ val)]
      in case memDB_Get db dkey of
           None \<Rightarrow> Inr (b @ news, t)
         | Some old \<Rightarrow>
             (case DecodePrefix_int old of
                None \<Rightarrow> Inl ''timed.Set decode old''
              | Some (oldT, _) \<Rightarrow> Inr (b @ [OpDelete (index_key kind oldT key)] @ news, t)))"


definition timed_Get :: "memDB \<Rightarrow> string \<Rightarrow> bytes \<Rightarrow> string + Entry option" where
  "timed_Get db kind key =
     (case memDB_Get db (primary_key kind key) of
        None \<Rightarrow> Inr None
      | Some dval \<Rightarrow>
          (case DecodePrefix_int dval of
             None \<Rightarrow> Inl ''GetTimed decode''
           | Some (t, val) \<Rightarrow> Inr (Some \<lparr>ModTime = t, Kind = kind, Key = key, Val = val\<rparr>)))"

text \<open>The by-time index rows of the database that belong to one logical key.\<close>

fun is_index_row :: "string \<Rightarrow> bytes \<Rightarrow> bytes \<Rightarrow> bool" where
  "is_index_row kind key (OStr s # OInt t # rest) = (s = kind @ ''ByTime'' \<and> rest = key)"
| "is_index_row kind key _ = False"

definition index_rows :: "memDB \<Rightarrow> string \<Rightarrow> bytes \<Rightarrow> bytes list" where
  "index_rows db kind key = filter (is_index_row kind key) (map fst db)"

text \<open>
  The state in which \<^verbatim>\<open>timed.Set\<close> is meant to be called for a key: the primary row,
  if there is one, starts with its modification time, and no index row of the key
  points at another time.
\<close>

definition timed_consistent :: "memDB \<Rightarrow> string \<Rightarrow> bytes \<Rightarrow> bool" where
  "timed_consistent db kind key =
     (case memDB_Get db (primary_key kind key) of
        None \<Rightarrow> index_rows db kind key = []
      | Some dval \<Rightarrow>
          (case DecodePrefix_int dval of
             None \<Rightarrow> False
           | Some (t, _) \<Rightarrow> list_all (\<lambda>k. k = index_key kind t key) (index_rows db kind key)))"

text \<open>
  The by-time row that \<^verbatim>\<open>timed.Set\<close> adds a \<^verbatim>\<open>Delete\<close> for: the row of the time that the
  primary row in \<open>db\<close> holds (none when there is no primary row).
\<close>

definition old_index_rows :: "memDB \<Rightarrow> string \<Rightarrow> bytes \<Rightarrow> bytes list" where
  "old_index_rows db kind key =
     (case memDB_Get db (primary_key kind key) of
        None \<Rightarrow> []
      | Some old \<Rightarrow>
          (case DecodePrefix_int old of
             None \<Rightarrow> []
           | Some (oldT, _) \<Rightarrow> [index_key kind oldT key]))"

subsection \<open>ScanAfter\<close>

text \<open>
  What \<^verbatim>\<open>timed.ScanAfter\<close> does with one row of the by-time index: it panics
  (\<^verbatim>\<open>db.Panic\<close>), goes on to the next row without yielding (\<^verbatim>\<open>continue\<close>), or yields
  an entry. The filter \<open>filt\<close> is \<open>None\<close> for \<^verbatim>\<open>nil\<close>.
\<close>

datatype row_outcome = Panic string | Skip | Yield Entry

definition ScanAfter_row ::
  "memDB \<Rightarrow> string \<Rightarrow> (bytes \<Rightarrow> bool) option \<Rightarrow> bytes \<Rightarrow> row_outcome" where
  "ScanAfter_row db kind filt tkey =
     (case DecodePrefix_skip_int tkey of
        None \<Rightarrow> Panic ''storage.After decode''
      | Some (t, key) \<Rightarrow>
          if (case filt of None \<Rightarrow> False | Some f \<Rightarrow> \<not> f key) then Skip
          else
            (case memDB_Get db (primary_key kind key) of
               None \<Rightarrow> Skip
             | Some dval \<Rightarrow>
                 (case DecodePrefix_int dval of
                    None \<Rightarrow> Panic ''storage.After val decode''
                  | Some (t2, val) \<Rightarrow>
                      if t < t2 then Skip
                      else if t > t2 then Panic ''timed.ScanAfter mismatch''
                      else Yield \<lparr>ModTime = t, Kind = kind, Key = key, Val = val\<rparr>)))"

text \<open>
  The loop over the rows of the scan. Its result is the trace of the rows visited, each
  with its outcome; a panic ends the loop. The consumer is taken to run the iteration
  to its end (a \<^verbatim>\<open>break\<close> sees a prefix of the entries yielded), and the database is
  the same for the whole scan.
\<close>

fun ScanAfter_loop ::
  "memDB \<Rightarrow> string \<Rightarrow> (bytes \<Rightarrow> bool) option \<Rightarrow> bytes list \<Rightarrow> (bytes \<times> row_outcome) list" where
  "ScanAfter_loop db kind filt [] = []"
| "ScanAfter_loop db kind filt (tkey # rest) =
     (case ScanAfter_row db kind filt tkey of
        Panic msg \<Rightarrow> [(tkey, Panic msg)]
      | Skip \<Rightarrow> (tkey, Skip) # ScanAfter_loop db kind filt rest
      | Yield e \<Rightarrow> (tkey, Yield e) # ScanAfter_loop db kind filt rest)"

definition timed_ScanAfter ::
  "memDB \<Rightarrow> string \<Rightarrow> int \<Rightarrow> (bytes \<Rightarrow> bool) option \<Rightarrow> (bytes \<times> row_outcome) list" where
  "timed_ScanAfter db kind t filt =
     ScanAfter_loop db kind filt
       (map fst (memDB_Scan db [OStr (kind @ ''ByTime''), OInt (wrap64 (t + 1))]
                               [OStr (kind @ ''ByTime''), OInf]))"

text \<open>The entries an iteration yields, in order, and the panic that ended it, if any.\<close>

fun yielded :: "(bytes \<times> row_outcome) list \<Rightarrow> Entry list" where
  "yielded [] = []"
| "yielded ((k, Yield e) # tr) = e # yielded tr"
| "yielded (_ # tr) = yielded tr"

fun panicked :: "(bytes \<times> row_outcome) list \<Rightarrow> string option" where
  "panicked [] = None"
| "panicked ((k, Panic msg) # tr) = Some msg"
| "panicked (_ # tr) = panicked tr"


subsection \<open>Watcher\<close>

text \<open>
  A \<^verbatim>\<open>Watcher\<close> holds the key of its cursor row, its kind and the flag \<^verbatim>\<open>locked\<close>;
  the database is passed along, and \<^verbatim>\<open>decode\<close> is an argument of \<open>Recent\<close>.
\<close>

record Watcher =
  w_dkey :: bytes
  w_kind :: string
  w_locked :: bool

definition NewWatcher :: "string \<Rightarrow> string \<Rightarrow> Watcher" where
  "NewWatcher name kind =
     \<lparr>w_dkey = [OStr (kind @ ''Watcher''), OStr name], w_kind = kind, w_locked = False\<rparr>"

definition cutoff :: "Watcher \<Rightarrow> memDB \<Rightarrow> string + int" where
  "cutoff w db =
     (if \<not> w_locked w then Inl ''timed.Watcher not locked''
      else case memDB_Get db (w_dkey w) of
             None \<Rightarrow> Inr 0
           | Some dval \<Rightarrow>
               (case Decode_int dval of
                  None \<Rightarrow> Inl ''watcher decode''
                | Some t \<Rightarrow> Inr t))"

definition MarkOld :: "Watcher \<Rightarrow> memDB \<Rightarrow> int \<Rightarrow> string + memDB" where
  "MarkOld w db t =
     (if \<not> w_locked w then Inl ''timed.Watcher.MarkOld unlocked''
      else case cutoff w db of
             Inl msg \<Rightarrow> Inl msg
           | Inr c \<Rightarrow> if t \<le> c then Inr db else Inr (memDB_Set db (w_dkey w) [OInt t]))"

text \<open>Several calls of \<^verbatim>\<open>MarkOld\<close> in a row, inside one iteration.\<close>

fun MarkOld_all :: "Watcher \<Rightarrow> memDB \<Rightarrow> int list \<Rightarrow> string + memDB" where
  "MarkOld_all w db [] = Inr db"
| "MarkOld_all w db (t # ts) =
     (case MarkOld w db t of Inl msg \<Rightarrow> Inl msg | Inr db' \<Rightarrow> MarkOld_all w db' ts)"

text \<open>
  One full iteration over \<^verbatim>\<open>Recent()\<close>: the values yielded and the panic that ended
  it, if any. The lock is taken at the start and released at the end, so the watcher
  is unlocked again afterwards.
\<close>

definition Recent :: "Watcher \<Rightarrow> memDB \<Rightarrow> (Entry \<Rightarrow> 'a) \<Rightarrow> 'a list \<times> string option" where
  "Recent w db decode =
     (if w_locked w then ([], Some ''timed.Watcher already locked'')
      else case cutoff (w\<lparr>w_locked := True\<rparr>) db of
             Inl msg \<Rightarrow> ([], Some msg)
           | Inr c \<Rightarrow>
               (let tr = timed_ScanAfter db (w_kind w) c None
                in (map decode (yielded tr), panicked tr)))"

text \<open>
  The entries stored under a kind: the rows whose key starts with the kind and whose
  value starts with a modification time (what \<^verbatim>\<open>timed.Scan\<close> over all keys yields).
\<close>

fun stored_entry :: "string \<Rightarrow> bytes \<times> bytes \<Rightarrow> Entry option" where
  "stored_entry kind (OStr s # key, OInt t # val) =
     (if s = kind then Some \<lparr>ModTime = t, Kind = kind, Key = key, Val = val\<rparr> else None)"
| "stored_entry kind _ = None"

definition stored_entries :: "memDB \<Rightarrow> string \<Rightarrow> Entry list" where
  "stored_entries db kind = List.map_filter (stored_entry kind) db"

text \<open>
  The state of the time index that \<^verbatim>\<open>ScanAfter\<close> is written for. A by-time row
  \<open>(kind+"ByTime", t, key)\<close> belongs to a key whose primary row is absent or holds a time
  that is not less than \<open>t\<close>; the row is stale when the primary row is absent or holds a
  greater time. There is no row \<open>(kind+"ByTime", Inf)\<close>. Every primary row of the kind
  starts with a time and has the by-time row of that time.
\<close>

fun index_row_sound :: "memDB \<Rightarrow> string \<Rightarrow> bytes \<Rightarrow> bool" where
  "index_row_sound db kind (OStr s # OInt t # key) =
     (s \<noteq> kind @ ''ByTime'' \<or>
        (case memDB_Get db (primary_key kind key) of
           None \<Rightarrow> True
         | Some dval \<Rightarrow>
             (case DecodePrefix_int dval of
                None \<Rightarrow> False
              | Some (t2, _) \<Rightarrow> t \<le> t2)))"
| "index_row_sound db kind [OStr s, OInf] = (s \<noteq> kind @ ''ByTime'')"
| "index_row_sound db kind _ = True"

fun primary_row_sound :: "memDB \<Rightarrow> string \<Rightarrow> bytes \<times> bytes \<Rightarrow> bool" where
  "primary_row_sound db kind (OStr s # key, dval) =
     (s \<noteq> kind \<or>
        (case DecodePrefix_int dval of
           None \<Rightarrow> False
         | Some (t, _) \<Rightarrow> memDB_Get db (index_key kind t key) \<noteq> None))"
| "primary_row_sound db kind _ = True"

definition timed_sound :: "memDB \<Rightarrow> string \<Rightarrow> bool" where
  "timed_sound db kind =
     (list_all (index_row_sound db kind) (map fst db) \<and> list_all (primary_row_sound db kind) db)"

subsection \<open>Runs of the package\<close>








text \<open>
  A database that holds \<^verbatim>\<open>key\<close>, set at time 3, and a batch on which a \<^verbatim>\<open>Set\<close> of
  another key, \<^verbatim>\<open>k1\<close>, is pending.
\<close>

definition set_db :: memDB where
  "set_db = [([OStr ''kind'', ORaw ''key''], [OInt 3, ORaw ''old'']),
             ([OStr ''kindByTime'', OInt 3, ORaw ''key''], [])]"

definition pending_batch :: memBatch where
  "pending_batch = [OpSet [OStr ''kindByTime'', OInt 5, ORaw ''k1''] [],
                    OpSet [OStr ''kind'', ORaw ''k1''] [OInt 5, ORaw ''v1'']]"

text \<open>The batch after \<^verbatim>\<open>timed.Set\<close> of \<^verbatim>\<open>key\<close> at time 7 was added to it.\<close>

definition set_batch :: memBatch where
  "set_batch = pending_batch @
     [OpDelete [OStr ''kindByTime'', OInt 3, ORaw ''key''],
      OpSet [OStr ''kindByTime'', OInt 7, ORaw ''key''] [],
      OpSet [OStr ''kind'', ORaw ''key''] [OInt 7, ORaw ''val'']]"


definition stale_db :: memDB where
  "stale_db =
     [([OStr ''kind'', ORaw ''k1''], [OInt 1, ORaw ''v1'']),
      ([OStr ''kind'', ORaw ''k3''], [OInt 3, ORaw ''v3'']),
      ([OStr ''kindByTime'', OInt 1, ORaw ''k1''], []),
      ([OStr ''kindByTime'', OInt 2, ORaw ''k3''], []),
      ([OStr ''kindByTime'', OInt 3, ORaw ''k3''], [])]"



section \<open>The vector database (storage.MemVectorDB)\<close>

text \<open>
  A floating-point value, of type float32 or float64: not a number, an infinity, or a
  finite number (the two zeros are one value here; Go compares them equal). An
  \<^verbatim>\<open>llm.Vector\<close> is a slice of float32.
\<close>

datatype float = NaN | NegInf | Fin real | PosInf

type_synonym Vector = "float list"

text \<open>The Go operators \<^verbatim>\<open><\<close> and \<^verbatim>\<open>!=\<close> on floating-point values.\<close>

fun f_less :: "float \<Rightarrow> float \<Rightarrow> bool" where
  "f_less NaN y = False"
| "f_less x NaN = False"
| "f_less NegInf y = (y \<noteq> NegInf)"
| "f_less x NegInf = False"
| "f_less PosInf y = False"
| "f_less x PosInf = True"
| "f_less (Fin a) (Fin b) = (a < b)"

definition f_ne :: "float \<Rightarrow> float \<Rightarrow> bool" where
  "f_ne x y = (x = NaN \<or> y = NaN \<or> x \<noteq> y)"

text \<open>
  \<^verbatim>\<open>Vector.Dot\<close> cuts both vectors to the shorter length and adds the products from the
  left, starting from 0, in float64. The arithmetic of the machine is the argument
  \<open>madd\<close>: \<open>madd t x y\<close> is the float64 value of \<^verbatim>\<open>t + float64(x)*float64(y)\<close>, rounded as
  the machine rounds it.
\<close>

definition Dot :: "(float \<Rightarrow> float \<Rightarrow> float \<Rightarrow> float) \<Rightarrow> Vector \<Rightarrow> Vector \<Rightarrow> float" where
  "Dot madd v w = fold (\<lambda>(x, y) t. madd t x y) (zip v w) (Fin 0)"

text \<open>
  The arithmetic on values for which no rounding happens and the result is finite (small
  integers, for instance); used in the examples.
\<close>

fun exact_madd :: "float \<Rightarrow> float \<Rightarrow> float \<Rightarrow> float" where
  "exact_madd (Fin t) (Fin x) (Fin y) = Fin (t + x * y)"
| "exact_madd t x y = NaN"

record VectorResult =
  ID :: string
  Score :: float

text \<open>
  \<^verbatim>\<open>cmp.Compare\<close> of the Go standard library, on an ordered type and on float64, where
  a NaN is equal to a NaN and less than any other value.
\<close>

definition Compare :: "'a::linorder \<Rightarrow> 'a \<Rightarrow> int" where
  "Compare x y = (if x < y then - 1 else if y < x then 1 else 0)"

definition Compare_float :: "float \<Rightarrow> float \<Rightarrow> int" where
  "Compare_float x y =
     (if x = NaN then (if y = NaN then 0 else - 1)
      else if y = NaN then 1
      else if f_less x y then - 1
      else if f_less y x then 1
      else 0)"

definition VectorResult_cmp :: "VectorResult \<Rightarrow> VectorResult \<Rightarrow> int" where
  "VectorResult_cmp x y =
     (if f_ne (Score x) (Score y) then Compare_float (Score x) (Score y)
      else Compare (ID x) (ID y))"

text \<open>
  \<^verbatim>\<open>top.New(n, cmp)\<close>, \<^verbatim>\<open>Add\<close> and \<^verbatim>\<open>Take\<close> belong to the library rsc.io/top, which is
  not part of the repository. Its contract, as the repository uses and tests it
  (\<^verbatim>\<open>TestVectorDB\<close> expects the greatest score first): the structure keeps the \<open>n\<close>
  greatest values added, by \<open>cmp\<close>, and \<^verbatim>\<open>Take\<close> returns them greatest first; with a
  negative \<open>n\<close>, \<^verbatim>\<open>Add\<close> panics. It is modelled as the list of the values kept, greatest
  first, cut to \<open>n\<close> after each \<^verbatim>\<open>Add\<close>. What is proved of \<open>Search\<close> is proved for
  \<open>n > 0\<close> and for \<open>n < 0\<close>.
\<close>

fun top_insert :: "('a \<Rightarrow> 'a \<Rightarrow> int) \<Rightarrow> 'a \<Rightarrow> 'a list \<Rightarrow> 'a list" where
  "top_insert cmp x [] = [x]"
| "top_insert cmp x (y # ys) = (if cmp x y > 0 then x # y # ys else y # top_insert cmp x ys)"

definition top_Add :: "('a \<Rightarrow> 'a \<Rightarrow> int) \<Rightarrow> int \<Rightarrow> 'a \<Rightarrow> 'a list \<Rightarrow> string + 'a list" where
  "top_Add cmp n x best =
     (if n < 0 then Inl ''top: Add with negative n''
      else Inr (take (nat n) (top_insert cmp x best)))"

text \<open>
  \<^verbatim>\<open>memVectorDB.cache\<close> is a Go map from id to vector. It is an association list here,
  and \<^verbatim>\<open>Search\<close> ranges over it in the order of the list; Go fixes no order, so what is
  proved of \<open>Search\<close> is proved for every order of the list. The result is the panic
  message or the slice returned.
\<close>

record memVectorDB =
  vdb_storage :: memDB
  vdb_namespace :: string
  vdb_cache :: "(string \<times> Vector) list"

definition Search_step ::
  "(float \<Rightarrow> float \<Rightarrow> float \<Rightarrow> float) \<Rightarrow> Vector \<Rightarrow> int \<Rightarrow> string \<times> Vector \<Rightarrow>
     string + VectorResult list \<Rightarrow> string + VectorResult list" where
  "Search_step madd target n entry acc =
     (case acc of
        Inl msg \<Rightarrow> Inl msg
      | Inr best \<Rightarrow>
          (case entry of (name, vec) \<Rightarrow>
             if length vec \<noteq> length target then Inr best
             else top_Add VectorResult_cmp n \<lparr>ID = name, Score = Dot madd target vec\<rparr> best))"

definition Search ::
  "(float \<Rightarrow> float \<Rightarrow> float \<Rightarrow> float) \<Rightarrow> memVectorDB \<Rightarrow> Vector \<Rightarrow> int \<Rightarrow>
     string + VectorResult list" where
  "Search madd db target n = fold (Search_step madd target n) (vdb_cache db) (Inr [])"

text \<open>
  \<^verbatim>\<open>memVectorDB.Set\<close> writes the encoded vector to the underlying database and puts a
  copy into the cache. \<^verbatim>\<open>Vector.Encode\<close> (big-endian float32 bits) is the argument
  \<open>enc\<close>.
\<close>

definition vector_key :: "string \<Rightarrow> string \<Rightarrow> bytes" where
  "vector_key namespace ident = [OStr ''llm.Vector'', OStr namespace, OStr ident]"

definition memVectorDB_Set ::
  "(Vector \<Rightarrow> bytes) \<Rightarrow> memVectorDB \<Rightarrow> string \<Rightarrow> Vector \<Rightarrow> memVectorDB" where
  "memVectorDB_Set enc db ident vec =
     db\<lparr>vdb_storage := memDB_Set (vdb_storage db) (vector_key (vdb_namespace db) ident) (enc vec),
        vdb_cache := (ident, vec) # filter (\<lambda>p. fst p \<noteq> ident) (vdb_cache db)\<rparr>"

definition memVectorDB_Get :: "memVectorDB \<Rightarrow> string \<Rightarrow> Vector option" where
  "memVectorDB_Get db name = map_of (vdb_cache db) name"

text \<open>
  The candidates of a search: one result for each cached vector as long as the target.
\<close>

definition candidates ::
  "(float \<Rightarrow> float \<Rightarrow> float \<Rightarrow> float) \<Rightarrow> memVectorDB \<Rightarrow> Vector \<Rightarrow> VectorResult list" where
  "candidates madd db target =
     map (\<lambda>(name, vec). \<lparr>ID = name, Score = Dot madd target vec\<rparr>)
       (filter (\<lambda>(name, vec). length vec = length target) (vdb_cache db))"

text \<open>\<open>x\<close> ranks before \<open>y\<close>: the greater score, and at equal scores the greater id.\<close>

definition ranks_before :: "VectorResult \<Rightarrow> VectorResult \<Rightarrow> bool" where
  "ranks_before x y = (f_less (Score y) (Score x) \<or> Score x = Score y \<and> ID y < ID x)"

text \<open>Descending order of scores, as Go compares them.\<close>

definition f_ge :: "float \<Rightarrow> float \<Rightarrow> bool" where
  "f_ge x y = (f_less y x \<or> x = y \<and> x \<noteq> NaN)"

text \<open>An example: three vectors of length 1, two of them equal, and one of length 2.\<close>

definition search_db :: memVectorDB where
  "search_db = \<lparr>vdb_storage = [], vdb_namespace = ''ns'',
     vdb_cache = [(''a'', [Fin 1]), (''c'', [Fin (1 / 2)]), (''b'', [Fin 1]),
                  (''ignore'', [Fin 1, Fin 2])]\<rparr>"


section \<open>The GitHub client (package github)\<close>

subsection \<open>HTTP GET with rate limits\<close>

text \<open>
  What \<^verbatim>\<open>Client.get\<close> sees of a response: the status code and text, the headers
  \<^verbatim>\<open>X-Ratelimit-Remaining\<close> and \<^verbatim>\<open>X-Ratelimit-Reset\<close> (the latter as \<^verbatim>\<open>strconv.Atoi\<close>
  returns it: \<open>0\<close> when the header is missing or not a number), the body, and the
  reading of \<^verbatim>\<open>time.Now()\<close> that \<^verbatim>\<open>rateLimit\<close> takes for this response, in nanoseconds
  since the epoch. A duration is a number of nanoseconds.
\<close>

record Response =
  StatusCode :: int
  Status :: string
  RatelimitRemaining :: string
  RatelimitReset :: int
  Body :: string
  Now :: int

definition Second :: int where
  "Second = 1000000000"

definition Minute :: int where
  "Minute = 60 * Second"

text \<open>
  \<^verbatim>\<open>rateLimit\<close> reports whether the response is a rate limit, and sleeps in one of
  its branches: the result is the report and the duration passed to \<^verbatim>\<open>time.Sleep\<close>,
  if it is called (\<^verbatim>\<open>now.Sub(t) + 1*time.Minute\<close>, as the source has it).
\<close>

definition rateLimit :: "Response \<Rightarrow> bool \<times> int option" where
  "rateLimit resp =
     (if StatusCode resp \<noteq> 403 \<or> RatelimitRemaining resp \<noteq> ''0'' then (False, None)
      else
        let n = RatelimitReset resp in
        if n = 0 then (False, None)
        else
          let t = n * Second; now = Now resp in
          if t < now then
            (if now - t > 2 * Minute then (False, None) else (True, None))
          else (True, Some (now - t + 1 * Minute)))"


datatype get_error =
    ErrTransport string
  | ErrReadingBody
  | ErrNotModified
  | ErrTooManyRateLimits string
  | ErrStatus string








subsection \<open>Project sync state and events\<close>

record projectSync =
  Name :: string
  EventETag :: string
  EventID :: int
  IssueDate :: string
  CommentDate :: string
  RefillID :: int
  FullSyncActive :: bool
  FullSyncIssue :: int

text \<open>
  \<^verbatim>\<open>proj.store(db)\<close>; \<^verbatim>\<open>storage.JSON\<close> (the JSON encoding of the struct) is the
  argument \<open>JSON\<close>.
\<close>

definition projectSync_key :: "string \<Rightarrow> bytes" where
  "projectSync_key project = [OStr ''githubdl.ProjectSync'', OStr project]"

definition projectSync_store :: "(projectSync \<Rightarrow> bytes) \<Rightarrow> memDB \<Rightarrow> projectSync \<Rightarrow> memDB" where
  "projectSync_store JSON db proj = memDB_Set db (projectSync_key (Name proj)) (JSON proj)"

definition event_key :: "string \<Rightarrow> int \<Rightarrow> string \<Rightarrow> int \<Rightarrow> bytes" where
  "event_key project issue api ident = [OStr project, OInt issue, OStr api, OInt ident]"

definition writeEvent ::
  "memDB \<Rightarrow> memBatch \<Rightarrow> string \<Rightarrow> int \<Rightarrow> string \<Rightarrow> int \<Rightarrow> string \<Rightarrow> int \<Rightarrow> int
     \<Rightarrow> string + (memBatch \<times> int)" where
  "writeEvent db b project issue api ident raw clock lastTime =
     timed_Set db b ''githubdl.Event'' (event_key project issue api ident) [ORaw raw] clock lastTime"

subsection \<open>syncIssueEvents\<close>

text \<open>
  One element of a page of \<^verbatim>\<open>/issues/events\<close>: the raw JSON and what \<^verbatim>\<open>json.Unmarshal\<close>
  makes of it in \<^verbatim>\<open>meta\<close> (\<open>None\<close> when it fails).
\<close>

record event_meta =
  m_ID :: int
  m_URL :: string
  m_IssueNumber :: int

record raw_event =
  ev_raw :: string
  ev_meta :: "event_meta option"

record page =
  pg_Etag :: string
  pg_body :: "raw_event list"

text \<open>What the iterator \<^verbatim>\<open>c.pages\<close> yields: a page, or the error of \<^verbatim>\<open>c.get\<close>.\<close>

datatype page_yield = YieldErr get_error | YieldPage page

datatype sync_error =
    GetError get_error
  | ParsingJSON
  | NoIssueNumber string
  | NoID string
  | LostSync int int

text \<open>
  The local variables of \<^verbatim>\<open>syncIssueEvents\<close>, and the calls of \<^verbatim>\<open>writeEvent\<close> made so
  far with their arguments (project, issue, api, id, raw). The batch is applied when
  the function returns, whatever the result.
\<close>

record walk =
  firstID :: int
  firstETag :: string
  lastID :: int
  stopped :: bool
  writes :: "(string \<times> int \<times> string \<times> int \<times> string) list"

datatype loop_exit = Next | Break | Return sync_error

text \<open>The loop over the elements of one page.\<close>

fun body_loop ::
  "projectSync \<Rightarrow> int \<Rightarrow> bool \<Rightarrow> string \<Rightarrow> raw_event list \<Rightarrow> walk \<Rightarrow> walk \<times> loop_exit" where
  "body_loop proj issue onlySetLatest etag [] w = (w, Next)"
| "body_loop proj issue onlySetLatest etag (raw # rest) w =
     (case ev_meta raw of
        None \<Rightarrow> (w, Return ParsingJSON)
      | Some m \<Rightarrow>
          if \<not> issue > 0 \<and> m_IssueNumber m = 0 then (w, Return (NoIssueNumber (ev_raw raw)))
          else if m_ID m = 0 then (w, Return (NoID (ev_raw raw)))
          else
            let number = (if issue > 0 then issue else m_IssueNumber m);
                w1 = (if firstID w = 0 then w\<lparr>firstID := m_ID m, firstETag := etag\<rparr> else w);
                w2 = w1\<lparr>lastID := m_ID m\<rparr>
            in if issue = 0 \<and> (onlySetLatest \<or> EventID proj \<noteq> 0 \<and> m_ID m \<le> EventID proj)
               then (w2\<lparr>stopped := True\<rparr>, Break)
               else body_loop proj issue onlySetLatest etag rest
                      (w2\<lparr>writes := writes w2 @
                          [(Name proj, number, ''/issues/events'', m_ID m, ev_raw raw)]\<rparr>))"

datatype walk_end = Done | ReturnNil | ReturnErr sync_error

text \<open>The loop over the pages, labelled \<^verbatim>\<open>Pages\<close>.\<close>

fun pages_loop ::
  "projectSync \<Rightarrow> int \<Rightarrow> bool \<Rightarrow> page_yield list \<Rightarrow> walk \<Rightarrow> walk \<times> walk_end" where
  "pages_loop proj issue onlySetLatest [] w = (w, Done)"
| "pages_loop proj issue onlySetLatest (YieldErr e # rest) w =
     (if e = ErrNotModified then (w, ReturnNil) else (w, ReturnErr (GetError e)))"
| "pages_loop proj issue onlySetLatest (YieldPage pg # rest) w =
     (case body_loop proj issue onlySetLatest (pg_Etag pg) (pg_body pg) w of
        (w', Next) \<Rightarrow> pages_loop proj issue onlySetLatest rest w'
      | (w', Break) \<Rightarrow> (w', Done)
      | (w', Return e) \<Rightarrow> (w', ReturnErr e))"

text \<open>
  The outcome of \<^verbatim>\<open>syncIssueEvents\<close>: the error returned (\<open>None\<close> for \<^verbatim>\<open>nil\<close>), the
  project state afterwards, the events written and the project states stored.
  The misuse \<open>issue > 0\<close> with \<open>onlySetLatest\<close> panics.
\<close>

record sync_outcome =
  s_err :: "sync_error option"
  s_proj :: projectSync
  s_written :: "(string \<times> int \<times> string \<times> int \<times> string) list"
  s_stored :: "projectSync list"

definition syncIssueEvents ::
  "projectSync \<Rightarrow> int \<Rightarrow> bool \<Rightarrow> page_yield list \<Rightarrow> string + sync_outcome" where
  "syncIssueEvents proj issue onlySetLatest pages =
     (if issue > 0 \<and> onlySetLatest then Inl ''syncIssueEvents misuse''
      else
        case pages_loop proj issue onlySetLatest pages
               \<lparr>firstID = 0, firstETag = [], lastID = 0, stopped = False, writes = []\<rparr> of
          (w, ReturnNil) \<Rightarrow>
            Inr \<lparr>s_err = None, s_proj = proj, s_written = writes w, s_stored = []\<rparr>
        | (w, ReturnErr e) \<Rightarrow>
            Inr \<lparr>s_err = Some e, s_proj = proj, s_written = writes w, s_stored = []\<rparr>
        | (w, Done) \<Rightarrow>
            if issue = 0 \<and> lastID w \<noteq> 0 \<and> \<not> stopped w then
              Inr \<lparr>s_err = Some (LostSync (EventID proj) (lastID w)), s_proj = proj,
                   s_written = writes w, s_stored = []\<rparr>
            else if issue = 0 then
              Inr \<lparr>s_err = None,
                   s_proj = proj\<lparr>EventID := firstID w, EventETag := firstETag w\<rparr>,
                   s_written = writes w,
                   s_stored = [proj\<lparr>EventID := firstID w, EventETag := firstETag w\<rparr>]\<rparr>
            else
              Inr \<lparr>s_err = None, s_proj = proj, s_written = writes w, s_stored = []\<rparr>)"

text \<open>All the elements of the pages of a walk, in the order read.\<close>

fun all_events :: "page_yield list \<Rightarrow> raw_event list" where
  "all_events [] = []"
| "all_events (YieldErr e # rest) = all_events rest"
| "all_events (YieldPage pg # rest) = pg_body pg @ all_events rest"

text \<open>
  An element of the feed that is new to the project: it decodes, has an id and an issue
  number, and its id is greater than the stored \<open>EventID\<close>.
\<close>

definition fresh_event :: "projectSync \<Rightarrow> raw_event \<Rightarrow> bool" where
  "fresh_event proj ev =
     (\<exists>m. ev_meta ev = Some m \<and> m_ID m \<noteq> 0 \<and> m_IssueNumber m \<noteq> 0 \<and> EventID proj < m_ID m)"

text \<open>A project that has absorbed the events up to id 100, and feed elements by id.\<close>

definition proj_100 :: projectSync where
  "proj_100 = \<lparr>Name = ''rsc/markdown'', EventETag = ''W/old'', EventID = 100,
     IssueDate = [], CommentDate = [], RefillID = 0, FullSyncActive = False, FullSyncIssue = 0\<rparr>"

definition feed_event :: "int \<Rightarrow> raw_event" where
  "feed_event i = \<lparr>ev_raw = ''{}'', ev_meta = Some \<lparr>m_ID = i, m_URL = [], m_IssueNumber = 7\<rparr>\<rparr>"

definition gap_pages :: "page_yield list" where
  "gap_pages =
     [YieldPage \<lparr>pg_Etag = ''W/p1'', pg_body = [feed_event 105, feed_event 103]\<rparr>,
      YieldPage \<lparr>pg_Etag = ''W/p2'', pg_body = [feed_event 102]\<rparr>]"

definition seen_pages :: "page_yield list" where
  "seen_pages =
     [YieldPage \<lparr>pg_Etag = ''W/p1'', pg_body = [feed_event 105, feed_event 100]\<rparr>,
      YieldPage \<lparr>pg_Etag = ''W/p2'', pg_body = [feed_event 99]\<rparr>]"

section \<open>The related-issues poster (package related)\<close>

text \<open>
  The fields of a GitHub issue and of a stored event that the poster reads.
  \<open>i_PullRequest\<close> says that the pointer \<^verbatim>\<open>PullRequest\<close> is not nil; \<open>e_Typed\<close> is the
  dynamic type of \<^verbatim>\<open>Typed\<close>, with the issue when it is one.
\<close>

record Issue =
  i_URL :: string
  i_Number :: int
  i_Title :: string
  i_CreatedAt :: string
  i_Body :: string
  i_State :: string
  i_PullRequest :: bool

datatype Typed = TIssue Issue | TIssueComment | TIssueEvent

record Event =
  e_DBTime :: int
  e_Project :: string
  e_Issue :: int
  e_API :: string
  e_ID :: int
  e_Typed :: Typed

definition EventWatcher :: "string \<Rightarrow> Watcher" where
  "EventWatcher name = NewWatcher name ''githubdl.Event''"

record Poster =
  p_name :: string
  p_projects :: "string \<Rightarrow> bool"
  p_timeLimit :: int
  p_ignores :: "(Issue \<Rightarrow> bool) list"
  p_maxResults :: int
  p_scoreCutoff :: float
  p_post :: bool

text \<open>
  What the poster takes from outside the repository or from GitHub: \<^verbatim>\<open>time.Parse\<close> of
  an RFC 3339 time (\<open>None\<close> for an error), the formatting verbs \<^verbatim>\<open>%d\<close> and \<^verbatim>\<open>%.5f\<close>, the
  title of a document in the corpus (\<^verbatim>\<open>docs.Get\<close>), whether the n-th call of
  \<^verbatim>\<open>PostIssueComment\<close> succeeds, and the float64 arithmetic of the machine.
\<close>

record Collab =
  parse_time :: "string \<Rightarrow> int option"
  fmt_d :: "int \<Rightarrow> string"
  fmt_score :: "float \<Rightarrow> string"
  doc_title :: "string \<Rightarrow> string option"
  post_ok :: "nat \<Rightarrow> bool"
  float_madd :: "float \<Rightarrow> float \<Rightarrow> float \<Rightarrow> float"

definition posted_key :: "string \<Rightarrow> int \<Rightarrow> bytes" where
  "posted_key project issue = [OStr ''triage.Posted'', OStr project, OInt issue]"

definition issue_url :: "Collab \<Rightarrow> string \<Rightarrow> int \<Rightarrow> string" where
  "issue_url env project issue = ''https://github.com/'' @ project @ ''/issues/'' @ fmt_d env issue"

definition markdownEscape :: "string \<Rightarrow> string" where
  "markdownEscape s =
     concat (map (\<lambda>c. if c \<in> set ''_*`[]<>&'' then [CHR 0x5C, c] else [c]) s)"

fun Contains :: "string \<Rightarrow> string \<Rightarrow> bool" where
  "Contains [] sub = (sub = [])"
| "Contains (c # cs) sub = (take (length sub) (c # cs) = sub \<or> Contains cs sub)"

definition comment_line :: "Collab \<Rightarrow> VectorResult \<Rightarrow> string" where
  "comment_line env r =
     (let title = (case doc_title env (ID r) of Some t \<Rightarrow> t | None \<Rightarrow> ID r);
          num = (if Contains (ID r) ''/issues/'' \<and> CHR ''/'' \<in> set (ID r)
                 then '' #'' @ rev (takeWhile (\<lambda>c. c \<noteq> CHR ''/'') (rev (ID r))) else [])
      in '' - ['' @ markdownEscape title @ num @ '']('' @ ID r @ '') <!-- score='' @
         fmt_score env (Score r) @ '' -->'' @ [CHR 0x0A])"

definition format_comment :: "Collab \<Rightarrow> VectorResult list \<Rightarrow> string" where
  "format_comment env results =
     ''**Similar Issues**'' @ [CHR 0x0A, CHR 0x0A] @ concat (map (comment_line env) results) @
     [CHR 0x0A] @
     ''<sub>(Emoji vote if this was helpful or unhelpful; more detailed feedback welcome in [this discussion](https://github.com/golang/go/discussions/67901).)</sub>'' @
     [CHR 0x0A]"

text \<open>
  The state of a run: the database, the calls of \<^verbatim>\<open>PostIssueComment\<close> made so far
  (project, issue, comment, success) and the panic that ended the run, if any.
\<close>

record run_state =
  rs_db :: memDB
  rs_posts :: "(string \<times> int \<times> string \<times> bool) list"
  rs_panic :: "string option"

definition Poster_watcher :: "Poster \<Rightarrow> Watcher" where
  "Poster_watcher p = EventWatcher (''related.Poster:'' @ p_name p)"

definition mark_old :: "Poster \<Rightarrow> int \<Rightarrow> run_state \<Rightarrow> run_state" where
  "mark_old p t st =
     (case MarkOld ((Poster_watcher p)\<lparr>w_locked := True\<rparr>) (rs_db st) t of
        Inl msg \<Rightarrow> st\<lparr>rs_panic := Some msg\<rparr>
      | Inr db' \<Rightarrow> st\<lparr>rs_db := db'\<rparr>)"

text \<open>
  The choice of the results to post: the search, less the issue itself when it comes
  first, cut at the first score below the cutoff and to \<open>maxResults\<close>. A panic of the
  search ends the run, and slicing to a negative \<open>maxResults\<close> panics.
\<close>

definition related_results ::
  "Poster \<Rightarrow> Collab \<Rightarrow> memVectorDB \<Rightarrow> string \<Rightarrow> Vector \<Rightarrow> string + VectorResult list" where
  "related_results p env vdb u vec =
     (case Search (float_madd env) vdb vec (p_maxResults p + 5) of
        Inl msg \<Rightarrow> Inl msg
      | Inr r0 \<Rightarrow>
          (let r1 = (case r0 of r # rest \<Rightarrow> if ID r = u then rest else r0 | [] \<Rightarrow> r0);
               r2 = takeWhile (\<lambda>r. \<not> f_less (Score r) (p_scoreCutoff p)) r1
           in if int (length r2) > p_maxResults p
              then (if p_maxResults p < 0 then Inl ''slice bounds out of range''
                    else Inr (take (nat (p_maxResults p)) r2))
              else Inr r2))"

text \<open>
  The end of the loop body, once the results are chosen: nothing to post, posting
  disabled, a failed post, or a post followed by the marker and \<^verbatim>\<open>MarkOld\<close>.
\<close>

definition Poster_post ::
  "Poster \<Rightarrow> Collab \<Rightarrow> Event \<Rightarrow> VectorResult list \<Rightarrow> run_state \<Rightarrow> run_state" where
  "Poster_post p env e results st =
     (if results = [] then (if p_post p then mark_old p (e_DBTime e) st else st)
      else if \<not> p_post p then st
      else if \<not> post_ok env (length (rs_posts st)) then
        st\<lparr>rs_posts := rs_posts st @
             [(e_Project e, e_Issue e, format_comment env results, False)]\<rparr>
      else
        mark_old p (e_DBTime e)
          (st\<lparr>rs_db := memDB_Set (rs_db st) (posted_key (e_Project e) (e_Issue e)) [],
              rs_posts := rs_posts st @
                [(e_Project e, e_Issue e, format_comment env results, True)]\<rparr>))"

text \<open>The loop body from the check of the marker on.\<close>

definition Poster_unposted ::
  "Poster \<Rightarrow> Collab \<Rightarrow> memVectorDB \<Rightarrow> Event \<Rightarrow> run_state \<Rightarrow> run_state" where
  "Poster_unposted p env vdb e st =
     (if memDB_Get (rs_db st) (posted_key (e_Project e) (e_Issue e)) \<noteq> None then st
      else
        (case memVectorDB_Get vdb (issue_url env (e_Project e) (e_Issue e)) of
           None \<Rightarrow> st
         | Some vec \<Rightarrow>
             (case related_results p env vdb (issue_url env (e_Project e) (e_Issue e)) vec of
                Inl msg \<Rightarrow> st\<lparr>rs_panic := Some msg\<rparr>
              | Inr results \<Rightarrow> Poster_post p env e results st)))"

text \<open>The checks of the issue that come before.\<close>

definition Poster_issue ::
  "Poster \<Rightarrow> Collab \<Rightarrow> memVectorDB \<Rightarrow> Event \<Rightarrow> Issue \<Rightarrow> run_state \<Rightarrow> run_state" where
  "Poster_issue p env vdb e issue st =
     (if i_State issue = ''closed'' \<or> i_PullRequest issue then st
      else
        (case parse_time env (i_CreatedAt issue) of
           None \<Rightarrow> st
         | Some tm \<Rightarrow>
             if tm < p_timeLimit p then st
             else if list_ex (\<lambda>ig. ig issue) (p_ignores p) then st
             else Poster_unposted p env vdb e st))"

text \<open>
  The body of the loop of \<^verbatim>\<open>Poster.Run\<close>, for one event of the watcher. The type
  assertion \<^verbatim>\<open>e.Typed.(*github.Issue)\<close> panics when the event holds no issue.
\<close>

definition Poster_consider ::
  "Poster \<Rightarrow> Collab \<Rightarrow> memVectorDB \<Rightarrow> Event \<Rightarrow> run_state \<Rightarrow> run_state" where
  "Poster_consider p env vdb e st =
     (if \<not> p_projects p (e_Project e) \<or> e_API e \<noteq> ''/issues'' then st
      else
        (case e_Typed e of
           TIssue issue \<Rightarrow> Poster_issue p env vdb e issue st
         | TIssueComment \<Rightarrow> st\<lparr>rs_panic := Some ''interface conversion''\<rparr>
         | TIssueEvent \<Rightarrow> st\<lparr>rs_panic := Some ''interface conversion''\<rparr>))"

text \<open>The loop over the events that the watcher yields; a panic ends it.\<close>

fun Run_events ::
  "Poster \<Rightarrow> Collab \<Rightarrow> memVectorDB \<Rightarrow> Event list \<Rightarrow> run_state \<Rightarrow> run_state" where
  "Run_events p env vdb [] st = st"
| "Run_events p env vdb (e # es) st =
     (if rs_panic st \<noteq> None then st
      else Run_events p env vdb es (Poster_consider p env vdb e st))"

text \<open>
  \<^verbatim>\<open>Poster.Run\<close>: the events are those of one iteration over \<^verbatim>\<open>Recent()\<close> of the
  poster's watcher, decoded by \<^verbatim>\<open>decodeEvent\<close> (the argument \<open>decode\<close>).
\<close>

definition Poster_Run ::
  "Poster \<Rightarrow> Collab \<Rightarrow> memVectorDB \<Rightarrow> (Entry \<Rightarrow> Event) \<Rightarrow> memDB \<Rightarrow> run_state" where
  "Poster_Run p env vdb decode db =
     (case Recent (Poster_watcher p) db decode of
        (events, pn) \<Rightarrow>
          let st = Run_events p env vdb events \<lparr>rs_db = db, rs_posts = [], rs_panic = None\<rparr>
          in if rs_panic st = None then st\<lparr>rs_panic := pn\<rparr> else st)"

text \<open>The marker of an issue is in the database.\<close>

definition marked :: "memDB \<Rightarrow> string \<Rightarrow> int \<Rightarrow> bool" where
  "marked db project issue = (memDB_Get db (posted_key project issue) \<noteq> None)"

text \<open>The calls of \<^verbatim>\<open>PostIssueComment\<close> that a run adds to those made before.\<close>

definition new_posts :: "run_state \<Rightarrow> run_state \<Rightarrow> (string \<times> int \<times> string \<times> bool) list" where
  "new_posts st st' = drop (length (rs_posts st)) (rs_posts st')"

text \<open>
  An example: the project rsc/markdown with issue 1 stored at time 5, the vectors of
  issues 1 and 2, and a poster with posting enabled.
\<close>

definition ex_issue :: Issue where
  "ex_issue = \<lparr>i_URL = ''https://api.github.com/repos/rsc/markdown/issues/1'', i_Number = 1,
     i_Title = ''Support Github Emojis'', i_CreatedAt = ''2023-12-12T13:57:39Z'',
     i_Body = ''emojis'', i_State = ''open'', i_PullRequest = False\<rparr>"

definition ex_decode :: "Entry \<Rightarrow> Event" where
  "ex_decode t = \<lparr>e_DBTime = ModTime t, e_Project = ''rsc/markdown'', e_Issue = 1,
     e_API = ''/issues'', e_ID = 100, e_Typed = TIssue ex_issue\<rparr>"

definition ex_env :: Collab where
  "ex_env = \<lparr>parse_time = (\<lambda>s. Some 1702389459), fmt_d = (\<lambda>i. ''1''),
     fmt_score = (\<lambda>r. ''1.00000''), doc_title = (\<lambda>s. None), post_ok = (\<lambda>n. True),
     float_madd = exact_madd\<rparr>"

definition ex_vdb :: memVectorDB where
  "ex_vdb = \<lparr>vdb_storage = [], vdb_namespace = ''ns'',
     vdb_cache = [(''https://github.com/rsc/markdown/issues/1'', [Fin 1]),
                  (''https://github.com/rsc/markdown/issues/2'', [Fin 1])]\<rparr>"

definition ex_poster :: Poster where
  "ex_poster = \<lparr>p_name = ''test'', p_projects = (\<lambda>s. s = ''rsc/markdown''), p_timeLimit = 0,
     p_ignores = [], p_maxResults = 10, p_scoreCutoff = Fin (82 / 100), p_post = True\<rparr>"

definition ex_db :: memDB where
  "ex_db =
     [([OStr ''githubdl.Event'', OStr ''rsc/markdown'', OInt 1, OStr ''/issues'', OInt 100],
       [OInt 5, ORaw ''{}'']),
      ([OStr ''githubdl.EventByTime'', OInt 5, OStr ''rsc/markdown'', OInt 1, OStr ''/issues'',
        OInt 100], [])]"

section \<open>The comment fixer (package commentfix)\<close>

text \<open>
  The syntax tree of rsc.io/markdown, as far as the fixer tells its nodes apart.
  Inlines: plain text, a code span, a link (inner inlines and URL), an autolink (text
  and URL), an image (inner inlines and URL), deleted, emphasized and strong text, and
  the other inlines (escapes, HTML tags, breaks, emoji), which the fixer passes by.
  Blocks: document, quote, list, item, heading and paragraph (each with the inlines of
  its text), a text, a code block and an HTML block (with their lines), and the other
  blocks. Parsing and printing Markdown belong to that library.
\<close>

datatype Inline =
    Plain string
  | Code string
  | Link "Inline list" string
  | AutoLink string string
  | Image "Inline list" string
  | Del "Inline list"
  | Emph "Inline list"
  | Strong "Inline list"
  | OtherInline string

datatype Block =
    Document "Block list"
  | Quote "Block list"
  | BList "Block list"
  | Item "Block list"
  | Heading "Inline list"
  | Paragraph "Inline list"
  | Text "Inline list"
  | CodeBlock "string list"
  | HTMLBlock "string list"
  | OtherBlock string

text \<open>
  A fix function takes an inline and the flags and returns \<^verbatim>\<open>nil\<close>, one inline, a
  slice of inlines, or a value of another type. A fix that changes its argument in
  place returns it, so the value returned stands for the argument as changed.
\<close>

datatype fix_result = FixNil | FixInline Inline | FixInlines "Inline list" | FixInvalid

type_synonym fixer = "Inline \<Rightarrow> int \<Rightarrow> fix_result"

definition flagLink :: int where
  "flagLink = 1"

text \<open>
  \<^verbatim>\<open>fixInlines\<close> of \<^verbatim>\<open>fixOne\<close>, with the counter \<open>link\<close> as an argument: the new
  inlines and whether anything changed, here or below. \<open>fixInline\<close> is the body of its
  loop for one inline: the inner inlines first, then the inline itself.
\<close>

fun fixInlines :: "fixer \<Rightarrow> nat \<Rightarrow> Inline list \<Rightarrow> Inline list \<times> bool"
  and fixInline :: "fixer \<Rightarrow> nat \<Rightarrow> Inline \<Rightarrow> Inline list \<times> bool"
  and fixInner :: "fixer \<Rightarrow> nat \<Rightarrow> Inline \<Rightarrow> Inline \<times> bool" where
  "fixInlines fx link [] = ([], False)"
| "fixInlines fx link (x # xs) =
     (case fixInline fx link x of (ys, c1) \<Rightarrow>
        (case fixInlines fx link xs of (zs, c2) \<Rightarrow> (ys @ zs, c1 \<or> c2)))"
| "fixInline fx link x =
     (case fixInner fx link x of (x', c) \<Rightarrow>
        (case fx x' (if link > 0 then flagLink else 0) of
           FixNil \<Rightarrow> ([x'], c)
         | FixInline y \<Rightarrow> ([y], True)
         | FixInlines ys \<Rightarrow> (ys, True)
         | FixInvalid \<Rightarrow> ([x'], c)))"
| "fixInner fx link (Del inner) = (case fixInlines fx link inner of (ys, c) \<Rightarrow> (Del ys, c))"
| "fixInner fx link (Emph inner) = (case fixInlines fx link inner of (ys, c) \<Rightarrow> (Emph ys, c))"
| "fixInner fx link (Strong inner) = (case fixInlines fx link inner of (ys, c) \<Rightarrow> (Strong ys, c))"
| "fixInner fx link (Link inner url) =
     (case fixInlines fx (Suc link) inner of (ys, c) \<Rightarrow> (Link ys url, c))"
| "fixInner fx link x = (x, False)"

text \<open>\<^verbatim>\<open>fixBlock\<close> of \<^verbatim>\<open>fixOne\<close>: the new block and whether anything changed.\<close>

fun fixBlock :: "fixer \<Rightarrow> Block \<Rightarrow> Block \<times> bool"
  and fixBlocks :: "fixer \<Rightarrow> Block list \<Rightarrow> Block list \<times> bool" where
  "fixBlock fx (Document blocks) = (case fixBlocks fx blocks of (bs, c) \<Rightarrow> (Document bs, c))"
| "fixBlock fx (Quote blocks) = (case fixBlocks fx blocks of (bs, c) \<Rightarrow> (Quote bs, c))"
| "fixBlock fx (BList items) = (case fixBlocks fx items of (bs, c) \<Rightarrow> (BList bs, c))"
| "fixBlock fx (Item blocks) = (case fixBlocks fx blocks of (bs, c) \<Rightarrow> (Item bs, c))"
| "fixBlock fx (Heading inl) = (case fixInlines fx 0 inl of (ys, c) \<Rightarrow> (Heading ys, c))"
| "fixBlock fx (Paragraph inl) = (case fixInlines fx 0 inl of (ys, c) \<Rightarrow> (Paragraph ys, c))"
| "fixBlock fx (Text inl) = (case fixInlines fx 0 inl of (ys, c) \<Rightarrow> (Text ys, c))"
| "fixBlock fx b = (b, False)"
| "fixBlocks fx [] = ([], False)"
| "fixBlocks fx (b # bs) =
     (case fixBlock fx b of (b', c1) \<Rightarrow>
        (case fixBlocks fx bs of (bs', c2) \<Rightarrow> (b' # bs', c1 \<or> c2)))"

definition fixOne :: "fixer \<Rightarrow> Block \<Rightarrow> Block \<times> bool" where
  "fixOne fx doc = fixBlock fx doc"

text \<open>
  The loop of \<^verbatim>\<open>Fix\<close> over the fixes: the document after all of them and the flag
  \<^verbatim>\<open>fixed\<close>.
\<close>

fun Fix_doc :: "fixer list \<Rightarrow> Block \<Rightarrow> Block \<times> bool" where
  "Fix_doc [] doc = (doc, False)"
| "Fix_doc (fx # fixes) doc =
     (case fixOne fx doc of (doc1, c1) \<Rightarrow>
        (case Fix_doc fixes doc1 of (doc2, c2) \<Rightarrow> (doc2, c1 \<or> c2)))"

text \<open>
  \<^verbatim>\<open>Fix\<close>, with the parser and the printer of the Markdown library as the arguments
  \<open>Parse\<close> and \<open>ToMarkdown\<close>.
\<close>

definition Fix :: "(string \<Rightarrow> Block) \<Rightarrow> (Block \<Rightarrow> string) \<Rightarrow> fixer list \<Rightarrow> string \<Rightarrow> string \<times> bool" where
  "Fix Parse ToMarkdown fixes text =
     (case Fix_doc fixes (Parse text) of
        (doc, fixed) \<Rightarrow> if \<not> fixed then ([], False) else (ToMarkdown doc, True))"

text \<open>
  The rules. A compiled regular expression with its replacement is what it is used
  for: whether it matches a string (\<^verbatim>\<open>FindStringSubmatchIndex\<close> is not nil) and the
  string with all matches replaced (\<^verbatim>\<open>ReplaceAllString\<close>).
\<close>

record replacer =
  re_matches :: "string \<Rightarrow> bool"
  re_replace :: "string \<Rightarrow> string"

fun ReplaceText :: "replacer \<Rightarrow> fixer" where
  "ReplaceText re (Plain text) flags =
     (if \<not> re_matches re text then FixNil else FixInline (Plain (re_replace re text)))"
| "ReplaceText re x flags = FixNil"

fun ReplaceURL :: "replacer \<Rightarrow> fixer" where
  "ReplaceURL re (AutoLink text url) flags =
     (if re_replace re url = url then FixNil
      else FixInline (AutoLink (if text = url then re_replace re url else text) (re_replace re url)))"
| "ReplaceURL re (Link inner url) flags =
     (if re_replace re url = url then FixNil
      else FixInline (Link (case inner of
                              [Plain text] \<Rightarrow> if text = url then [Plain (re_replace re url)] else inner
                            | _ \<Rightarrow> inner)
                           (re_replace re url)))"
| "ReplaceURL re x flags = FixNil"

text \<open>
  The document with the plain text blanked wherever the walk of \<^verbatim>\<open>fixOne\<close> comes:
  what is left is all that lies outside the plain text the fixer visits: code spans,
  code blocks, the URLs of links, autolinks, images with their text, HTML.
\<close>

fun blank :: "Inline \<Rightarrow> Inline" where
  "blank (Plain text) = Plain []"
| "blank (Del inner) = Del (map blank inner)"
| "blank (Emph inner) = Emph (map blank inner)"
| "blank (Strong inner) = Strong (map blank inner)"
| "blank (Link inner url) = Link (map blank inner) url"
| "blank x = x"

fun blank_block :: "Block \<Rightarrow> Block" where
  "blank_block (Document blocks) = Document (map blank_block blocks)"
| "blank_block (Quote blocks) = Quote (map blank_block blocks)"
| "blank_block (BList items) = BList (map blank_block items)"
| "blank_block (Item blocks) = Item (map blank_block blocks)"
| "blank_block (Heading inl) = Heading (map blank inl)"
| "blank_block (Paragraph inl) = Paragraph (map blank inl)"
| "blank_block (Text inl) = Text (map blank inl)"
| "blank_block b = b"

text \<open>
  The strings in the safe zones, in document order: the text of every code span, the
  lines of every code block and the URL of every link and autolink.
\<close>

fun zones :: "Inline \<Rightarrow> string list" where
  "zones (Code text) = [text]"
| "zones (Link inner url) = concat (map zones inner) @ [url]"
| "zones (AutoLink text url) = [url]"
| "zones (Image inner url) = concat (map zones inner) @ [url]"
| "zones (Del inner) = concat (map zones inner)"
| "zones (Emph inner) = concat (map zones inner)"
| "zones (Strong inner) = concat (map zones inner)"
| "zones x = []"

fun block_zones :: "Block \<Rightarrow> string list" where
  "block_zones (Document blocks) = concat (map block_zones blocks)"
| "block_zones (Quote blocks) = concat (map block_zones blocks)"
| "block_zones (BList items) = concat (map block_zones items)"
| "block_zones (Item blocks) = concat (map block_zones blocks)"
| "block_zones (Heading inl) = concat (map zones inl)"
| "block_zones (Paragraph inl) = concat (map zones inl)"
| "block_zones (Text inl) = concat (map zones inl)"
| "block_zones (CodeBlock lines) = lines"
| "block_zones b = []"








text \<open>
  Examples: the rule that replaces the text \<open>cancelled\<close> by \<open>canceled\<close>, a document
  with that text as plain text, in a code span, in a link, in an autolink and in a code
  block, and a document with code only. \<open>ex_Parse\<close> and \<open>ex_ToMarkdown\<close> stand in for
  the library on these two documents.
\<close>

definition cancelled_rule :: replacer where
  "cancelled_rule = \<lparr>re_matches = (\<lambda>s. s = ''cancelled''),
     re_replace = (\<lambda>s. if s = ''cancelled'' then ''canceled'' else s)\<rparr>"

definition text_doc :: Block where
  "text_doc = Document
     [Paragraph [Plain ''cancelled'', Code ''cancelled'',
                 Link [Plain ''cancelled''] ''https://go.dev/cancelled'',
                 AutoLink ''https://go.dev/cancelled'' ''https://go.dev/cancelled''],
      CodeBlock [''cancelled'']]"

definition code_doc :: Block where
  "code_doc = Document [Paragraph [Code ''cancelled''], CodeBlock [''cancelled'']]"

definition ex_Parse :: "string \<Rightarrow> Block" where
  "ex_Parse text = (if text = ''code'' then code_doc else text_doc)"

definition ex_ToMarkdown :: "Block \<Rightarrow> string" where
  "ex_ToMarkdown doc = (if doc = code_doc then ''code'' else ''text'')"





section \<open>Proofs: the in-memory database\<close>

lemma map_of_insort_key:
  "map_of (insort_key fst (k, v) m) = (map_of m)(k \<mapsto> v)"
  by (induction m) (auto simp: fun_upd_twist)

lemma memDB_Get_Delete:
  "memDB_Get (memDB_Delete db k) k' = (if k' = k then None else memDB_Get db k')"
  unfolding memDB_Get_def memDB_Delete_def
  by (induction db) auto

lemma memDB_Get_Set:
  "memDB_Get (memDB_Set db k v) k' = (if k' = k then Some v else memDB_Get db k')"
  using memDB_Get_Delete [of db k k']
  by (simp add: memDB_Set_def memDB_Get_def map_of_insort_key)

lemma keys_Delete: "map fst (memDB_Delete db k) = filter (\<lambda>x. x \<noteq> k) (map fst db)"
  unfolding memDB_Delete_def by (induction db) auto

lemma keys_Set: "set (map fst (memDB_Set db k v)) = insert k (set (map fst db))"
proof -
  have "set (map fst (memDB_Set db k v)) = fst ` insert (k, v) (set (memDB_Delete db k))"
    by (simp add: memDB_Set_def set_insort_key)
  also have "\<dots> = insert k (set (map fst (memDB_Delete db k)))"
    by simp
  also have "\<dots> = insert k (set (map fst db))"
    by (auto simp: keys_Delete)
  finally show ?thesis .
qed

lemma memDB_wf_Delete: "memDB_wf db \<Longrightarrow> memDB_wf (memDB_Delete db k)"
  unfolding memDB_wf_def by (simp add: keys_Delete sorted_wrt_filter)

lemma memDB_wf_Set: "memDB_wf db \<Longrightarrow> memDB_wf (memDB_Set db k v)"
  using memDB_wf_Delete [of db k]
  unfolding memDB_wf_def memDB_Set_def
  by (auto simp: sorted_insort_key distinct_insort_key keys_Delete simp flip: set_map)

lemma memDB_wf_DeleteRange: "memDB_wf db \<Longrightarrow> memDB_wf (memDB_DeleteRange db s e)"
  unfolding memDB_wf_def memDB_DeleteRange_def
  by (simp add: sorted_wrt_filter distinct_map_filter sorted_map sorted_filter)


lemma fold_apply_append: "memBatch_Apply (b @ c) db = memBatch_Apply c (memBatch_Apply b db)"
  by (simp add: memBatch_Apply_def)

lemma distinct_singleton:
  assumes "distinct xs" and "set xs = {a}"
  shows "xs = [a]"
proof (cases xs)
  case Nil
  with assms show ?thesis by simp
next
  case (Cons x ys)
  with assms have "x = a" and "set ys \<subseteq> {a}" and "a \<notin> set ys"
    by auto
  then have "ys = []" by (cases ys) auto
  with Cons \<open>x = a\<close> show ?thesis by simp
qed

lemma index_rows_set:
  "set (index_rows db kind key) = {k \<in> set (map fst db). is_index_row kind key k}"
  by (auto simp: index_rows_def)

lemma index_rows_distinct: "memDB_wf db \<Longrightarrow> distinct (index_rows db kind key)"
  by (simp add: index_rows_def memDB_wf_def)

lemma is_index_row_index_key [simp]: "is_index_row kind key (index_key kind t key)"
  by (simp add: index_key_def)

lemma not_index_row_primary [simp]: "\<not> is_index_row kind key (primary_key kind key')"
  by (cases key'; cases "hd key'") (auto simp: primary_key_def)



section \<open>Proofs: timed.Set\<close>

lemma now_pos:
  assumes "0 \<le> lastTime" and "lastTime < 2 ^ 63 - 1"
  shows "0 < now clock lastTime" and "lastTime < now clock lastTime"
proof -
  have "wrap64 (lastTime + 1) = lastTime + 1"
    using assms by (simp add: wrap64_def)
  then show "0 < now clock lastTime" and "lastTime < now clock lastTime"
    using assms by (auto simp: now_def)
qed

lemma primary_ne_index [simp]: "primary_key kind key \<noteq> index_key kind t key'"
  by (simp add: primary_key_def index_key_def)

lemma index_key_inj [simp]: "(index_key kind t key = index_key kind t' key) = (t = t')"
  by (simp add: index_key_def)

lemma DecodePrefix_int_Some [simp]:
  "(DecodePrefix_int x = Some (a, b)) = (x = OInt a # b)"
  by (cases x rule: DecodePrefix_int.cases) auto


lemma memDB_wf_Apply: "memDB_wf db \<Longrightarrow> memDB_wf (memBatch_Apply b db)"
  unfolding memBatch_Apply_def
proof (induction b arbitrary: db)
  case Nil
  then show ?case by simp
next
  case (Cons a b)
  then show ?case
    by (cases a) (simp_all add: memDB_wf_Set memDB_wf_Delete memDB_wf_DeleteRange)
qed

lemma memBatch_Apply_Nil [simp]: "memBatch_Apply [] db = db"
  by (simp add: memBatch_Apply_def)

text \<open>
  What \<^verbatim>\<open>timed.Set\<close> returns: it panics when the primary row in \<open>db\<close> does not start
  with a time, and otherwise appends to the batch the \<^verbatim>\<open>Delete\<close> of the old by-time
  row, if any, and the two \<^verbatim>\<open>Set\<close>s.
\<close>

lemma timed_Set_eq:
  "timed_Set db b kind key val clock lastTime =
     (if \<exists>old. memDB_Get db (primary_key kind key) = Some old \<and> DecodePrefix_int old = None
      then Inl ''timed.Set decode old''
      else Inr (b @ map OpDelete (old_index_rows db kind key) @
                [OpSet (index_key kind (now clock lastTime) key) [],
                 OpSet (primary_key kind key) ([OInt (now clock lastTime)] @ val)],
                now clock lastTime))"
  by (auto simp: timed_Set_def old_index_rows_def Let_def split: option.splits)

lemma Apply_Deletes:
  "set (index_rows (memBatch_Apply (map OpDelete ks) d) kind key)
     = set (index_rows d kind key) - set ks"
proof (induction ks arbitrary: d)
  case Nil
  then show ?case by simp
next
  case (Cons k ks)
  have "set (index_rows (memDB_Delete d k) kind key) = set (index_rows d kind key) - {k}"
    by (auto simp: index_rows_set keys_Delete simp del: set_map)
  with Cons [of "memDB_Delete d k"] show ?case
    by (auto simp: memBatch_Apply_def)
qed

lemma Apply_Sets:
  "set (index_rows (memBatch_Apply [OpSet (index_key kind t key) v, OpSet (primary_key kind key) w] d)
          kind key)
     = insert (index_key kind t key) (set (index_rows d kind key))"
  by (auto simp: memBatch_Apply_def index_rows_set keys_Set simp del: set_map)

lemma Apply_Sets_Get:
  "memDB_Get (memBatch_Apply (b @ ds @ [OpSet k v, OpSet (primary_key kind key) w]) db)
     (primary_key kind key) = Some w"
  by (simp add: memBatch_Apply_def memDB_Get_Set)

lemma timed_consistent_old:
  assumes "timed_consistent db kind key"
  shows "set (index_rows db kind key) \<subseteq> set (old_index_rows db kind key)"
  using assms
  by (auto simp: timed_consistent_def old_index_rows_def list_all_iff split: option.splits)

lemma timed_Set_Apply:
  assumes wf: "memDB_wf db" and t0: "0 \<le> lastTime" and t1: "lastTime < 2 ^ 63 - 1"
    and r: "timed_Set db b kind key val clock lastTime = Inr (b', t)"
  shows "0 < t" and "lastTime < t"
    and "timed_Get (memBatch_Apply b' db) kind key
           = Inr (Some \<lparr>ModTime = t, Kind = kind, Key = key, Val = val\<rparr>)"
    and "set (index_rows (memBatch_Apply b' db) kind key)
           = insert (index_key kind t key)
               (set (index_rows (memBatch_Apply b db) kind key) - set (old_index_rows db kind key))"
    and "memDB_wf (memBatch_Apply b' db)"
    and "distinct (index_rows (memBatch_Apply b' db) kind key)"
proof -
  from r have t: "t = now clock lastTime"
    and b': "b' = b @ map OpDelete (old_index_rows db kind key) @
                [OpSet (index_key kind t key) [], OpSet (primary_key kind key) ([OInt t] @ val)]"
    by (auto simp: timed_Set_eq split: if_splits)
  show "0 < t" and "lastTime < t"
    using now_pos [OF t0 t1] by (simp_all add: t)
  have "memDB_Get (memBatch_Apply b' db) (primary_key kind key) = Some ([OInt t] @ val)"
    unfolding b' by (rule Apply_Sets_Get)
  then show "timed_Get (memBatch_Apply b' db) kind key
           = Inr (Some \<lparr>ModTime = t, Kind = kind, Key = key, Val = val\<rparr>)"
    by (simp add: timed_Get_def)
  show "set (index_rows (memBatch_Apply b' db) kind key)
           = insert (index_key kind t key)
               (set (index_rows (memBatch_Apply b db) kind key) - set (old_index_rows db kind key))"
    unfolding b' by (simp only: fold_apply_append Apply_Sets Apply_Deletes)
  show wf': "memDB_wf (memBatch_Apply b' db)"
    using wf by (rule memDB_wf_Apply)
  then show "distinct (index_rows (memBatch_Apply b' db) kind key)"
    by (rule index_rows_distinct)
qed

text \<open>
  Claim C1, as amended. Let the database be in order and the counter of \<^verbatim>\<open>now\<close> be in
  \<open>[0, 2^63 - 1)\<close>. \<^verbatim>\<open>timed.Set(db, b, kind, key, val)\<close> panics exactly when the primary row
  of the key in \<open>db\<close> does not start with a time. Otherwise, after \<^verbatim>\<open>b.Apply()\<close>,
  \<^verbatim>\<open>timed.Get(db, kind, key)\<close> returns the entry with \<open>Val = val\<close> and the new time as
  \<open>ModTime\<close>, which is greater than 0, and the by-time rows of the key are the new row
  \<open>(kind+"ByTime", ModTime, key)\<close> together with those that the batch as it was before
  the call leaves, less the row of the time stored in \<open>db\<close>. So the new row is the only
  one exactly when the batch as it was leaves no other row; it is when \<open>db\<close> has no
  by-time row of the key except that of the stored time and the batch as it was does not
  change the by-time rows of the key (a batch that is empty, or applied already, or
  holds operations on other keys), and then the database is in that state again.
\<close>

theorem timed_Set_Get_roundtrip:
  assumes wf: "memDB_wf db" and t0: "0 \<le> lastTime" and t1: "lastTime < 2 ^ 63 - 1"
  shows "((\<exists>msg. timed_Set db b kind key val clock lastTime = Inl msg) \<longleftrightarrow>
            (\<exists>old. memDB_Get db (primary_key kind key) = Some old \<and> DecodePrefix_int old = None)) \<and>
         (\<forall>b' t. timed_Set db b kind key val clock lastTime = Inr (b', t) \<longrightarrow>
            0 < t \<and> lastTime < t \<and> memDB_wf (memBatch_Apply b' db) \<and>
            timed_Get (memBatch_Apply b' db) kind key
              = Inr (Some \<lparr>ModTime = t, Kind = kind, Key = key, Val = val\<rparr>) \<and>
            set (index_rows (memBatch_Apply b' db) kind key)
              = insert (index_key kind t key)
                  (set (index_rows (memBatch_Apply b db) kind key)
                     - set (old_index_rows db kind key)) \<and>
            (index_rows (memBatch_Apply b' db) kind key = [index_key kind t key] \<longleftrightarrow>
               set (index_rows (memBatch_Apply b db) kind key)
                 \<subseteq> insert (index_key kind t key) (set (old_index_rows db kind key))) \<and>
            (timed_consistent db kind key \<and>
             index_rows (memBatch_Apply b db) kind key = index_rows db kind key \<longrightarrow>
               index_rows (memBatch_Apply b' db) kind key = [index_key kind t key] \<and>
               timed_consistent (memBatch_Apply b' db) kind key))"
proof (intro conjI allI impI)
  show "(\<exists>msg. timed_Set db b kind key val clock lastTime = Inl msg) \<longleftrightarrow>
            (\<exists>old. memDB_Get db (primary_key kind key) = Some old \<and> DecodePrefix_int old = None)"
    by (simp add: timed_Set_eq)
next
  fix b' t
  assume r: "timed_Set db b kind key val clock lastTime = Inr (b', t)"
  note S = timed_Set_Apply [OF wf t0 t1 r]
  show "0 < t" by (rule S(1))
  show "lastTime < t" by (rule S(2))
  show "memDB_wf (memBatch_Apply b' db)" by (rule S(5))
  show g: "timed_Get (memBatch_Apply b' db) kind key
              = Inr (Some \<lparr>ModTime = t, Kind = kind, Key = key, Val = val\<rparr>)"
    by (rule S(3))
  show "set (index_rows (memBatch_Apply b' db) kind key)
              = insert (index_key kind t key)
                  (set (index_rows (memBatch_Apply b db) kind key)
                     - set (old_index_rows db kind key))"
    by (rule S(4))
  have one: "index_rows (memBatch_Apply b' db) kind key = [index_key kind t key]"
    if "set (index_rows (memBatch_Apply b db) kind key)
                 \<subseteq> insert (index_key kind t key) (set (old_index_rows db kind key))"
  proof (rule distinct_singleton [OF S(6)])
    show "set (index_rows (memBatch_Apply b' db) kind key) = {index_key kind t key}"
      using that unfolding S(4) by blast
  qed
  show "index_rows (memBatch_Apply b' db) kind key = [index_key kind t key] \<longleftrightarrow>
               set (index_rows (memBatch_Apply b db) kind key)
                 \<subseteq> insert (index_key kind t key) (set (old_index_rows db kind key))"
  proof
    assume "index_rows (memBatch_Apply b' db) kind key = [index_key kind t key]"
    then have "set (index_rows (memBatch_Apply b' db) kind key) = {index_key kind t key}"
      by simp
    then show "set (index_rows (memBatch_Apply b db) kind key)
                 \<subseteq> insert (index_key kind t key) (set (old_index_rows db kind key))"
      unfolding S(4) by blast
  qed (rule one)
  assume c: "timed_consistent db kind key \<and>
             index_rows (memBatch_Apply b db) kind key = index_rows db kind key"
  with timed_consistent_old [of db kind key]
  have "set (index_rows (memBatch_Apply b db) kind key)
          \<subseteq> insert (index_key kind t key) (set (old_index_rows db kind key))"
    by auto
  then show o: "index_rows (memBatch_Apply b' db) kind key = [index_key kind t key]"
    by (rule one)
  from g have "memDB_Get (memBatch_Apply b' db) (primary_key kind key) = Some (OInt t # val)"
    by (auto simp: timed_Get_def split: option.splits)
  then show "timed_consistent (memBatch_Apply b' db) kind key"
    by (simp add: timed_consistent_def o)
qed

theorem timed_Set_Get_roundtrip_witness:
  "memDB_wf set_db \<and> (0::int) \<le> 3 \<and> (3::int) < 2 ^ 63 - 1 \<and>
   timed_Set set_db pending_batch ''kind'' [ORaw ''key''] [ORaw ''val''] 7 3 = Inr (set_batch, 7) \<and>
   timed_consistent set_db ''kind'' [ORaw ''key''] \<and>
   index_rows (memBatch_Apply pending_batch set_db) ''kind'' [ORaw ''key'']
     = index_rows set_db ''kind'' [ORaw ''key''] \<and>
   timed_Get (memBatch_Apply set_batch set_db) ''kind'' [ORaw ''key'']
     = Inr (Some \<lparr>ModTime = 7, Kind = ''kind'', Key = [ORaw ''key''], Val = [ORaw ''val'']\<rparr>) \<and>
   index_rows (memBatch_Apply set_batch set_db) ''kind'' [ORaw ''key'']
     = [index_key ''kind'' 7 [ORaw ''key'']] \<and>
   timed_consistent (memBatch_Apply set_batch set_db) ''kind'' [ORaw ''key'']"
proof -
  have wf: "memDB_wf set_db"
    by code_simp
  have t0: "(0::int) \<le> 3" and t1: "(3::int) < 2 ^ 63 - 1"
    by simp_all
  have r: "timed_Set set_db pending_batch ''kind'' [ORaw ''key''] [ORaw ''val''] 7 3
             = Inr (set_batch, 7)"
    by code_simp
  have c: "timed_consistent set_db ''kind'' [ORaw ''key'']"
    by code_simp
  have p: "index_rows (memBatch_Apply pending_batch set_db) ''kind'' [ORaw ''key'']
             = index_rows set_db ''kind'' [ORaw ''key'']"
    by code_simp
  note T = timed_Set_Get_roundtrip [OF wf t0 t1, of pending_batch "''kind''" "[ORaw ''key'']"
      "[ORaw ''val'']" 7, THEN conjunct2, rule_format, OF r]
  have g: "timed_Get (memBatch_Apply set_batch set_db) ''kind'' [ORaw ''key'']
     = Inr (Some \<lparr>ModTime = 7, Kind = ''kind'', Key = [ORaw ''key''], Val = [ORaw ''val'']\<rparr>)"
    using T by (elim conjE)
  have "timed_consistent set_db ''kind'' [ORaw ''key''] \<and>
        index_rows (memBatch_Apply pending_batch set_db) ''kind'' [ORaw ''key'']
          = index_rows set_db ''kind'' [ORaw ''key''] \<longrightarrow>
        index_rows (memBatch_Apply set_batch set_db) ''kind'' [ORaw ''key'']
          = [index_key ''kind'' 7 [ORaw ''key'']] \<and>
        timed_consistent (memBatch_Apply set_batch set_db) ''kind'' [ORaw ''key'']"
    using T by (elim conjE)
  with c p have o: "index_rows (memBatch_Apply set_batch set_db) ''kind'' [ORaw ''key'']
          = [index_key ''kind'' 7 [ORaw ''key'']]"
    and c': "timed_consistent (memBatch_Apply set_batch set_db) ''kind'' [ORaw ''key'']"
    by simp_all
  from wf t0 t1 r c p g o c' show ?thesis
    by (intro conjI)
qed

theorem timed_Set_twice_counterexample:
  "memDB_wf [] \<and> timed_consistent [] ''kind'' [ORaw ''k3''] \<and>
   timed_Set [] [] ''kind'' [ORaw ''k3''] [ORaw ''v3''] 7 0
     = Inr ([OpSet [OStr ''kindByTime'', OInt 7, ORaw ''k3''] [],
             OpSet [OStr ''kind'', ORaw ''k3''] [OInt 7, ORaw ''v3'']], 7) \<and>
   timed_Set [] [OpSet [OStr ''kindByTime'', OInt 7, ORaw ''k3''] [],
                 OpSet [OStr ''kind'', ORaw ''k3''] [OInt 7, ORaw ''v3'']]
       ''kind'' [ORaw ''k3''] [ORaw ''v3''] 7 7
     = Inr ([OpSet [OStr ''kindByTime'', OInt 7, ORaw ''k3''] [],
             OpSet [OStr ''kind'', ORaw ''k3''] [OInt 7, ORaw ''v3''],
             OpSet [OStr ''kindByTime'', OInt 8, ORaw ''k3''] [],
             OpSet [OStr ''kind'', ORaw ''k3''] [OInt 8, ORaw ''v3'']], 8) \<and>
   timed_Get (memBatch_Apply
       [OpSet [OStr ''kindByTime'', OInt 7, ORaw ''k3''] [],
        OpSet [OStr ''kind'', ORaw ''k3''] [OInt 7, ORaw ''v3''],
        OpSet [OStr ''kindByTime'', OInt 8, ORaw ''k3''] [],
        OpSet [OStr ''kind'', ORaw ''k3''] [OInt 8, ORaw ''v3'']] []) ''kind'' [ORaw ''k3'']
     = Inr (Some \<lparr>ModTime = 8, Kind = ''kind'', Key = [ORaw ''k3''], Val = [ORaw ''v3'']\<rparr>) \<and>
   index_rows (memBatch_Apply
       [OpSet [OStr ''kindByTime'', OInt 7, ORaw ''k3''] [],
        OpSet [OStr ''kind'', ORaw ''k3''] [OInt 7, ORaw ''v3''],
        OpSet [OStr ''kindByTime'', OInt 8, ORaw ''k3''] [],
        OpSet [OStr ''kind'', ORaw ''k3''] [OInt 8, ORaw ''v3'']] []) ''kind'' [ORaw ''k3'']
     = [[OStr ''kindByTime'', OInt 7, ORaw ''k3''], [OStr ''kindByTime'', OInt 8, ORaw ''k3'']]"
  by code_simp


section \<open>Proofs: runs of the package keep the time index sound\<close>








lemma index_key_eq_iff [simp]:
  "(index_key kind t key = index_key kind t' key') = (t = t' \<and> key = key')"
  by (auto simp: index_key_def)

lemma primary_key_eq_iff [simp]:
  "(primary_key kind key = primary_key kind key') = (key = key')"
  by (simp add: primary_key_def)

lemma index_ne_primary [simp]: "index_key kind t key' \<noteq> primary_key kind key"
  by (simp add: primary_key_def index_key_def)

lemma key_ne_Inf [simp]:
  "primary_key kind key \<noteq> [OStr (kind @ ''ByTime''), OInf]"
  "index_key kind t key \<noteq> [OStr (kind @ ''ByTime''), OInf]"
  "[OStr (kind @ ''ByTime''), OInf] \<noteq> primary_key kind key"
  "[OStr (kind @ ''ByTime''), OInf] \<noteq> index_key kind t key"
  by (simp_all add: primary_key_def index_key_def)











section \<open>Proofs: timed.ScanAfter\<close>

lemma oval_le_OInt [simp]: "(OInt a \<le> OInt b) = (a \<le> b)"
  by (auto simp: less_eq_oval_def)

lemma oval_less_OInt [simp]: "(OInt a < OInt b) = (a < b)"
  by (simp add: less_oval_def)

lemma oval_OInt_le: "(OInt a \<le> x) = (case x of OInt b \<Rightarrow> a \<le> b | OInf \<Rightarrow> True | _ \<Rightarrow> False)"
  by (cases x) (auto simp: less_eq_oval_def)

lemma oval_le_OInf [simp]: "x \<le> OInf"
  by (cases x) (auto simp: less_eq_oval_def)

lemma oval_OInf_le [simp]: "(OInf \<le> x) = (x = OInf)"
  by (cases x) (auto simp: less_eq_oval_def)

text \<open>
  The keys of the range that \<^verbatim>\<open>ScanAfter\<close> scans: an integer is above every string
  and all raw bytes, so the second item is a time or \<^verbatim>\<open>ordered.Inf\<close>.
\<close>

lemma scan_range_shape:
  assumes "[a, OInt lo] \<le> k" and "k \<le> [a, OInf]"
  shows "(\<exists>t rest. k = a # OInt t # rest \<and> lo \<le> t) \<or> k = [a, OInf]"
proof (cases k)
  case Nil
  with assms show ?thesis by simp
next
  case (Cons b k')
  with assms have b: "b = a"
    by auto
  show ?thesis
  proof (cases k')
    case Nil
    with assms Cons b show ?thesis by simp
  next
    case (Cons x rest)
    with assms \<open>k = b # k'\<close> b have x: "OInt lo \<le> x" and y: "x < OInf \<or> x = OInf \<and> rest = []"
      by (auto simp: not_less)
    then show ?thesis
      using Cons \<open>k = b # k'\<close> b by (cases x) (auto simp: oval_OInt_le)
  qed
qed

lemma in_scan_range:
  "lo \<le> t \<Longrightarrow> [a, OInt lo] \<le> a # OInt t # key \<and> a # OInt t # key \<le> [a, OInf]"
  by (auto simp: less_oval_def less_eq_oval_def)



lemma keys_Scan:
  "map fst (memDB_Scan db lo hi) = filter (\<lambda>k. lo \<le> k \<and> k \<le> hi) (map fst db)"
  by (simp add: memDB_Scan_def filter_map comp_def)

text \<open>With a sound time index no row of the scan makes \<^verbatim>\<open>ScanAfter\<close> panic.\<close>

lemma sound_row_cases:
  assumes ok: "timed_sound db kind" and k: "k \<in> set (map fst db)"
    and lo: "[OStr (kind @ ''ByTime''), OInt lo] \<le> k" and hi: "k \<le> [OStr (kind @ ''ByTime''), OInf]"
  obtains ti key where "k = index_key kind ti key" and "lo \<le> ti"
    and "memDB_Get db (primary_key kind key) = None \<or>
         (\<exists>t2 val. memDB_Get db (primary_key kind key) = Some (OInt t2 # val) \<and> ti \<le> t2)"
proof -
  from ok k have s: "index_row_sound db kind k"
    by (auto simp: timed_sound_def list_all_iff)
  from scan_range_shape [OF lo hi] s obtain ti key
    where shape: "k = OStr (kind @ ''ByTime'') # OInt ti # key" and t: "lo \<le> ti"
    by auto
  from s have "memDB_Get db (primary_key kind key) = None \<or>
         (\<exists>t2 val. memDB_Get db (primary_key kind key) = Some (OInt t2 # val) \<and> ti \<le> t2)"
    unfolding shape by (auto split: option.splits)
  with shape t that [of ti key] show thesis
    by (simp add: index_key_def)
qed






section \<open>Proofs: Watcher\<close>

lemma index_key_le_time:
  "index_key kind t key \<le> index_key kind t' key' \<Longrightarrow> t \<le> t'"
  by (auto simp: index_key_def less_oval_def)

lemma sorted_index_times:
  "sorted (map (\<lambda>e. index_key kind (ModTime e) (Key e)) es) \<Longrightarrow> sorted (map ModTime es)"
  by (induction es) (auto dest: index_key_le_time)

lemma stored_entry_Some:
  "(stored_entry kind kv = Some e) =
     (kv = (primary_key kind (Key e), OInt (ModTime e) # Val e) \<and> Kind e = kind)"
  by (cases "(kind, kv)" rule: stored_entry.cases) (auto simp: primary_key_def)

lemma set_map_filter_iff:
  "e \<in> set (List.map_filter f xs) \<longleftrightarrow> (\<exists>x \<in> set xs. f x = Some e)"
  by (induction xs) (auto split: option.splits)

lemma stored_entries_iff:
  "e \<in> set (stored_entries db kind) \<longleftrightarrow>
     (primary_key kind (Key e), OInt (ModTime e) # Val e) \<in> set db \<and> Kind e = kind"
  by (auto simp: stored_entries_def set_map_filter_iff stored_entry_Some)

lemma memDB_Get_iff:
  "memDB_wf db \<Longrightarrow> (memDB_Get db k = Some v) = ((k, v) \<in> set db)"
  by (simp add: memDB_Get_def memDB_wf_def)

lemma memDB_Get_dom: "(memDB_Get db k \<noteq> None) = (k \<in> set (map fst db))"
  by (auto simp: memDB_Get_def map_of_eq_None_iff)

lemma wrap64_id: "- (2 ^ 63) \<le> x \<Longrightarrow> x < 2 ^ 63 \<Longrightarrow> wrap64 x = x"
  by (simp add: wrap64_def)

text \<open>
  What \<^verbatim>\<open>ScanAfter\<close> does, without a filter, with a row of a sound index: it yields the
  entry when the primary row holds the time of the row, and skips the row when the
  primary row is absent or newer.
\<close>

lemma ScanAfter_row_sound:
  assumes "memDB_Get db (primary_key kind key) = None \<or>
           (\<exists>t2 val. memDB_Get db (primary_key kind key) = Some (OInt t2 # val) \<and> ti \<le> t2)"
  shows "ScanAfter_row db kind None (index_key kind ti key) =
           (case memDB_Get db (primary_key kind key) of
              Some (OInt t2 # val) \<Rightarrow>
                if t2 = ti then Yield \<lparr>ModTime = ti, Kind = kind, Key = key, Val = val\<rparr> else Skip
            | _ \<Rightarrow> Skip)"
  using assms by (auto simp: ScanAfter_row_def index_key_def)

lemma ScanAfter_loop_sound:
  assumes "\<forall>k \<in> set rows. \<exists>ti key. k = index_key kind ti key \<and>
             (memDB_Get db (primary_key kind key) = None \<or>
              (\<exists>t2 val. memDB_Get db (primary_key kind key) = Some (OInt t2 # val) \<and> ti \<le> t2))"
  shows "panicked (ScanAfter_loop db kind None rows) = None \<and>
         map (\<lambda>e. index_key kind (ModTime e) (Key e)) (yielded (ScanAfter_loop db kind None rows))
           = filter (\<lambda>k. \<exists>e. ScanAfter_row db kind None k = Yield e) rows \<and>
         (\<forall>e \<in> set (yielded (ScanAfter_loop db kind None rows)).
            Kind e = kind \<and> index_key kind (ModTime e) (Key e) \<in> set rows \<and>
            memDB_Get db (primary_key kind (Key e)) = Some (OInt (ModTime e) # Val e)) \<and>
         (\<forall>ti key val. index_key kind ti key \<in> set rows \<and>
            memDB_Get db (primary_key kind key) = Some (OInt ti # val) \<longrightarrow>
            \<lparr>ModTime = ti, Kind = kind, Key = key, Val = val\<rparr>
              \<in> set (yielded (ScanAfter_loop db kind None rows)))"
  using assms
proof (induction rows)
  case Nil
  then show ?case by simp
next
  case (Cons k rows)
  then obtain ti key where k: "k = index_key kind ti key"
    and p: "memDB_Get db (primary_key kind key) = None \<or>
              (\<exists>t2 val. memDB_Get db (primary_key kind key) = Some (OInt t2 # val) \<and> ti \<le> t2)"
    by auto
  note row = ScanAfter_row_sound [OF p]
  from Cons have ih: "panicked (ScanAfter_loop db kind None rows) = None \<and>
         map (\<lambda>e. index_key kind (ModTime e) (Key e)) (yielded (ScanAfter_loop db kind None rows))
           = filter (\<lambda>k. \<exists>e. ScanAfter_row db kind None k = Yield e) rows \<and>
         (\<forall>e \<in> set (yielded (ScanAfter_loop db kind None rows)).
            Kind e = kind \<and> index_key kind (ModTime e) (Key e) \<in> set rows \<and>
            memDB_Get db (primary_key kind (Key e)) = Some (OInt (ModTime e) # Val e)) \<and>
         (\<forall>ti key val. index_key kind ti key \<in> set rows \<and>
            memDB_Get db (primary_key kind key) = Some (OInt ti # val) \<longrightarrow>
            \<lparr>ModTime = ti, Kind = kind, Key = key, Val = val\<rparr>
              \<in> set (yielded (ScanAfter_loop db kind None rows)))"
    by simp
  show ?case
  proof (cases "\<exists>val. memDB_Get db (primary_key kind key) = Some (OInt ti # val)")
    case True
    then obtain val where g: "memDB_Get db (primary_key kind key) = Some (OInt ti # val)"
      by blast
    then have y: "ScanAfter_row db kind None (index_key kind ti key)
                    = Yield \<lparr>ModTime = ti, Kind = kind, Key = key, Val = val\<rparr>"
      by (simp add: row)
    show ?thesis
      unfolding k using ih g by (auto simp: y)
  next
    case False
    then have y: "ScanAfter_row db kind None (index_key kind ti key) = Skip"
      by (auto simp: row split: option.splits list.splits oval.splits)
    show ?thesis
      unfolding k using ih False by (auto simp: y)
  qed
qed

lemma Recent_emits:
  assumes wf: "memDB_wf db" and ok: "timed_sound db (w_kind w)"
    and unlocked: "\<not> w_locked w"
    and cur: "cutoff (w\<lparr>w_locked := True\<rparr>) db = Inr c"
    and c0: "- (2 ^ 63) \<le> c" and c1: "c < 2 ^ 63 - 1"
  shows "\<exists>es. Recent w db decode = (map decode es, None) \<and>
              sorted (map ModTime es) \<and> distinct es \<and>
              set es = {e \<in> set (stored_entries db (w_kind w)). c < ModTime e}"
proof -
  define kind where "kind = w_kind w"
  define rows where "rows = map fst (memDB_Scan db [OStr (kind @ ''ByTime''), OInt (c + 1)]
                                          [OStr (kind @ ''ByTime''), OInf])"
  define es where "es = yielded (ScanAfter_loop db kind None rows)"
  note ok' = ok [folded kind_def]
  have srows: "sorted rows" and drows: "distinct rows"
    using wf by (simp_all add: rows_def keys_Scan memDB_wf_def sorted_wrt_filter)
  have shape: "\<forall>k \<in> set rows. \<exists>ti key. k = index_key kind ti key \<and>
             (memDB_Get db (primary_key kind key) = None \<or>
              (\<exists>t2 val. memDB_Get db (primary_key kind key) = Some (OInt t2 # val) \<and> ti \<le> t2))"
  proof
    fix k assume "k \<in> set rows"
    then have k: "k \<in> set (map fst db)"
      and lo: "[OStr (kind @ ''ByTime''), OInt (c + 1)] \<le> k"
      and hi: "k \<le> [OStr (kind @ ''ByTime''), OInf]"
      by (auto simp: rows_def keys_Scan)
    from ok' k lo hi show "\<exists>ti key. k = index_key kind ti key \<and>
             (memDB_Get db (primary_key kind key) = None \<or>
              (\<exists>t2 val. memDB_Get db (primary_key kind key) = Some (OInt t2 # val) \<and> ti \<le> t2))"
      by (rule sound_row_cases) blast
  qed
  have inrows: "index_key kind t key \<in> set rows \<longleftrightarrow>
           c + 1 \<le> t \<and> index_key kind t key \<in> set (map fst db)" for t key
    using in_scan_range [of "c + 1" t "OStr (kind @ ''ByTime'')" key]
    by (auto simp: rows_def keys_Scan index_key_def)
  note L = ScanAfter_loop_sound [OF shape, folded es_def]
  have w: "wrap64 (c + 1) = c + 1"
    using c0 c1 by (intro wrap64_id) auto
  have run: "Recent w db decode = (map decode es, None)"
    using unlocked cur L
    by (simp add: Recent_def timed_ScanAfter_def w Let_def es_def rows_def kind_def)
  from L have rows_es: "map (\<lambda>e. index_key kind (ModTime e) (Key e)) es
      = filter (\<lambda>k. \<exists>e. ScanAfter_row db kind None k = Yield e) rows"
    by simp
  have srt: "sorted (map ModTime es)"
    using srows sorted_index_times [of kind es] by (simp add: rows_es sorted_wrt_filter)
  have dist: "distinct es"
    using drows distinct_map [of "\<lambda>e. index_key kind (ModTime e) (Key e)" es]
    by (simp add: rows_es)
  have mem: "set es = {e \<in> set (stored_entries db kind). c < ModTime e}"
  proof (intro set_eqI iffI)
    fix e assume e: "e \<in> set es"
    with L have st: "Kind e = kind" "index_key kind (ModTime e) (Key e) \<in> set rows"
      "memDB_Get db (primary_key kind (Key e)) = Some (OInt (ModTime e) # Val e)"
      by auto
    from st(2) have "c + 1 \<le> ModTime e"
      by (simp add: inrows)
    with st show "e \<in> {e \<in> set (stored_entries db kind). c < ModTime e}"
      by (simp add: stored_entries_iff memDB_Get_iff [OF wf])
  next
    fix e assume "e \<in> {e \<in> set (stored_entries db kind). c < ModTime e}"
    then have row: "(primary_key kind (Key e), OInt (ModTime e) # Val e) \<in> set db"
      and k: "Kind e = kind" and t: "c < ModTime e"
      by (auto simp: stored_entries_iff)
    from ok' row have "primary_row_sound db kind (primary_key kind (Key e), OInt (ModTime e) # Val e)"
      by (auto simp: timed_sound_def list_all_iff)
    then have "memDB_Get db (index_key kind (ModTime e) (Key e)) \<noteq> None"
      by (simp add: primary_key_def)
    then have "index_key kind (ModTime e) (Key e) \<in> set (map fst db)"
      by (simp only: memDB_Get_dom)
    with t have "index_key kind (ModTime e) (Key e) \<in> set rows"
      by (simp add: inrows)
    moreover from row have "memDB_Get db (primary_key kind (Key e)) = Some (OInt (ModTime e) # Val e)"
      by (simp add: memDB_Get_iff [OF wf])
    ultimately have "\<lparr>ModTime = ModTime e, Kind = kind, Key = Key e, Val = Val e\<rparr> \<in> set es"
      using L by blast
    moreover have "e = \<lparr>ModTime = ModTime e, Kind = kind, Key = Key e, Val = Val e\<rparr>"
      using k by (cases e) simp
    ultimately show "e \<in> set es" by simp
  qed
  show ?thesis
    using run srt dist mem by (auto simp: kind_def)
qed

lemma MarkOld_cutoff:
  assumes locked: "w_locked w" and cur: "cutoff w db = Inr c"
  shows "\<exists>db'. MarkOld w db t = Inr db' \<and> cutoff w db' = Inr (max c t) \<and>
               (t \<le> c \<longrightarrow> db' = db)"
  using assms by (auto simp: MarkOld_def cutoff_def memDB_Get_Set max_def)

lemma MarkOld_all_cutoff:
  assumes locked: "w_locked w" and cur: "cutoff w db = Inr c"
  shows "\<exists>db'. MarkOld_all w db ts = Inr db' \<and> cutoff w db' = Inr (Max (insert c (set ts)))"
  using cur
proof (induction ts arbitrary: db c)
  case Nil
  then show ?case by simp
next
  case (Cons t ts)
  from MarkOld_cutoff [OF locked Cons.prems, of t] obtain db1
    where m: "MarkOld w db t = Inr db1" and c1: "cutoff w db1 = Inr (max c t)"
    by blast
  from Cons.IH [OF c1] obtain db' where a: "MarkOld_all w db1 ts = Inr db'"
    and c': "cutoff w db' = Inr (Max (insert (max c t) (set ts)))"
    by blast
  have "Max (insert (max c t) (set ts)) = Max (insert c (set (t # ts)))"
    by (cases "set ts = {}") (simp_all add: max.assoc)
  with m a c' show ?case by simp
qed

text \<open>
  Claim C3. Let the database be in order and its time index for the watcher's kind be
  sound, stale by-time rows included, and let the watcher be unlocked with a cursor row
  that decodes to \<open>c\<close> (\<open>0\<close> when there is no row), \<open>c\<close> an int64 below the greatest. Then
  one full iteration over \<^verbatim>\<open>Recent()\<close> ends without a panic and yields, each once and in
  ascending order of \<open>ModTime\<close>, exactly the stored entries of the kind whose \<open>ModTime\<close> is
  greater than \<open>c\<close>. Inside the iteration, \<^verbatim>\<open>MarkOld(t)\<close> leaves the cursor at \<open>max c t\<close> and
  changes nothing when \<open>t \<le> c\<close>, so that after any calls \<^verbatim>\<open>MarkOld(t1)\<close>, ...,
  \<^verbatim>\<open>MarkOld(tn)\<close> the cursor is the greatest of \<open>c, t1, ..., tn\<close>.
\<close>

theorem Watcher_Recent_MarkOld:
  assumes wf: "memDB_wf db" and ok: "timed_sound db (w_kind w)"
    and unlocked: "\<not> w_locked w"
    and cur: "cutoff (w\<lparr>w_locked := True\<rparr>) db = Inr c"
    and c0: "- (2 ^ 63) \<le> c" and c1: "c < 2 ^ 63 - 1"
  shows "(\<exists>es. Recent w db decode = (map decode es, None) \<and>
               sorted (map ModTime es) \<and> distinct es \<and>
               set es = {e \<in> set (stored_entries db (w_kind w)). c < ModTime e}) \<and>
         (\<forall>t. \<exists>db'. MarkOld (w\<lparr>w_locked := True\<rparr>) db t = Inr db' \<and>
               cutoff (w\<lparr>w_locked := True\<rparr>) db' = Inr (max c t) \<and> (t \<le> c \<longrightarrow> db' = db)) \<and>
         (\<forall>ts. \<exists>db'. MarkOld_all (w\<lparr>w_locked := True\<rparr>) db ts = Inr db' \<and>
               cutoff (w\<lparr>w_locked := True\<rparr>) db' = Inr (Max (insert c (set ts))))"
proof (intro conjI allI)
  show "\<exists>es. Recent w db decode = (map decode es, None) \<and>
               sorted (map ModTime es) \<and> distinct es \<and>
               set es = {e \<in> set (stored_entries db (w_kind w)). c < ModTime e}"
    by (rule Recent_emits [OF wf ok unlocked cur c0 c1])
  have locked: "w_locked (w\<lparr>w_locked := True\<rparr>)"
    by simp
  show "\<exists>db'. MarkOld (w\<lparr>w_locked := True\<rparr>) db t = Inr db' \<and>
               cutoff (w\<lparr>w_locked := True\<rparr>) db' = Inr (max c t) \<and> (t \<le> c \<longrightarrow> db' = db)" for t
    by (rule MarkOld_cutoff [OF locked cur])
  show "\<exists>db'. MarkOld_all (w\<lparr>w_locked := True\<rparr>) db ts = Inr db' \<and>
               cutoff (w\<lparr>w_locked := True\<rparr>) db' = Inr (Max (insert c (set ts)))" for ts
    by (rule MarkOld_all_cutoff [OF locked cur])
qed

theorem Watcher_Recent_MarkOld_witness:
  "memDB_wf stale_db \<and>
   timed_sound stale_db (w_kind (NewWatcher ''name'' ''kind'')) \<and>
   \<not> w_locked (NewWatcher ''name'' ''kind'') \<and>
   cutoff ((NewWatcher ''name'' ''kind'')\<lparr>w_locked := True\<rparr>) stale_db = Inr 0 \<and>
   - (2 ^ 63) \<le> (0::int) \<and> (0::int) < 2 ^ 63 - 1 \<and>
   Recent (NewWatcher ''name'' ''kind'') stale_db Key = ([[ORaw ''k1''], [ORaw ''k3'']], None) \<and>
   (\<exists>es. Recent (NewWatcher ''name'' ''kind'') stale_db Key = (map Key es, None) \<and>
      sorted (map ModTime es) \<and> distinct es \<and>
      set es = {e \<in> set (stored_entries stale_db (w_kind (NewWatcher ''name'' ''kind''))).
                  0 < ModTime e}) \<and>
   (\<exists>db'. MarkOld_all ((NewWatcher ''name'' ''kind'')\<lparr>w_locked := True\<rparr>) stale_db [3, 2] = Inr db' \<and>
      cutoff ((NewWatcher ''name'' ''kind'')\<lparr>w_locked := True\<rparr>) db' = Inr 3)"
proof -
  let ?w = "NewWatcher ''name'' ''kind''"
  have wf: "memDB_wf stale_db"
    by code_simp
  have ok: "timed_sound stale_db (w_kind ?w)"
    by code_simp
  have unlocked: "\<not> w_locked ?w"
    by (simp add: NewWatcher_def)
  have cur: "cutoff (?w\<lparr>w_locked := True\<rparr>) stale_db = Inr 0"
    by code_simp
  have c0: "- (2 ^ 63) \<le> (0::int)" and c1: "(0::int) < 2 ^ 63 - 1"
    by simp_all
  have run: "Recent ?w stale_db Key = ([[ORaw ''k1''], [ORaw ''k3'']], None)"
    by code_simp
  have m: "Max (insert (0::int) (set [3, 2])) = 3"
    by simp
  note T = Watcher_Recent_MarkOld [OF wf ok unlocked cur c0 c1, of Key]
  have emits: "\<exists>es. Recent ?w stale_db Key = (map Key es, None) \<and>
      sorted (map ModTime es) \<and> distinct es \<and>
      set es = {e \<in> set (stored_entries stale_db (w_kind ?w)). 0 < ModTime e}"
    using T by (elim conjE)
  from T have "\<forall>ts. \<exists>db'. MarkOld_all (?w\<lparr>w_locked := True\<rparr>) stale_db ts = Inr db' \<and>
      cutoff (?w\<lparr>w_locked := True\<rparr>) db' = Inr (Max (insert 0 (set ts)))"
    by (elim conjE)
  then have "\<exists>db'. MarkOld_all (?w\<lparr>w_locked := True\<rparr>) stale_db [3, 2] = Inr db' \<and>
      cutoff (?w\<lparr>w_locked := True\<rparr>) db' = Inr (Max (insert 0 (set [3, 2])))"
    by (rule spec)
  then have mark: "\<exists>db'. MarkOld_all (?w\<lparr>w_locked := True\<rparr>) stale_db [3, 2] = Inr db' \<and>
      cutoff (?w\<lparr>w_locked := True\<rparr>) db' = Inr 3"
    by (simp only: m)
  show ?thesis
    using wf ok unlocked cur c0 c1 run emits mark by (intro conjI)
qed



section \<open>Proofs: vector search\<close>

lemma f_less_irrefl [simp]: "\<not> f_less x x"
  by (cases x) simp_all

lemma f_less_trans: "f_less x y \<Longrightarrow> f_less y z \<Longrightarrow> f_less x z"
  by (cases x; cases y; cases z) simp_all

lemma f_less_total: "x \<noteq> NaN \<Longrightarrow> y \<noteq> NaN \<Longrightarrow> x \<noteq> y \<Longrightarrow> \<not> f_less x y \<Longrightarrow> f_less y x"
  by (cases x; cases y) simp_all

lemma f_less_asym: "f_less x y \<Longrightarrow> \<not> f_less y x"
  by (cases x; cases y) simp_all

lemma cmp_pos:
  "Score x \<noteq> NaN \<Longrightarrow> Score y \<noteq> NaN \<Longrightarrow> (VectorResult_cmp x y > 0) = ranks_before x y"
  by (auto simp: VectorResult_cmp_def Compare_def Compare_float_def f_ne_def ranks_before_def
      dest: f_less_asym f_less_total)

lemma ranks_before_trans: "ranks_before x y \<Longrightarrow> ranks_before y z \<Longrightarrow> ranks_before x z"
  by (auto simp: ranks_before_def dest: f_less_trans)

lemma ranks_before_total:
  fixes x y :: VectorResult
  shows "Score x \<noteq> NaN \<Longrightarrow> Score y \<noteq> NaN \<Longrightarrow> x \<noteq> y \<Longrightarrow> \<not> ranks_before x y \<Longrightarrow>
    ranks_before y x"
  by (cases x; cases y) (auto simp: ranks_before_def dest: f_less_total)

lemma ranks_before_irrefl: "\<not> ranks_before x x"
  by (simp add: ranks_before_def)

lemma ranks_before_Score: "Score x \<noteq> NaN \<Longrightarrow> ranks_before x y \<Longrightarrow> f_ge (Score x) (Score y)"
  by (auto simp: ranks_before_def f_ge_def)

lemma set_top_insert: "set (top_insert cmp x ys) = insert x (set ys)"
  by (induction ys) auto

lemma length_top_insert: "length (top_insert cmp x ys) = Suc (length ys)"
  by (induction ys) auto

lemma distinct_top_insert:
  "distinct (top_insert cmp x ys) = (x \<notin> set ys \<and> distinct ys)"
  by (induction ys) (auto simp: set_top_insert)

lemma sorted_top_insert:
  assumes "sorted_wrt ranks_before ys" and "x \<notin> set ys"
    and "Score x \<noteq> NaN" and "\<forall>y \<in> set ys. Score y \<noteq> NaN"
  shows "sorted_wrt ranks_before (top_insert VectorResult_cmp x ys)"
  using assms
proof (induction ys)
  case Nil
  then show ?case by simp
next
  case (Cons y ys)
  show ?case
  proof (cases "ranks_before x y")
    case True
    with Cons.prems show ?thesis
      by (auto simp: cmp_pos intro: ranks_before_trans)
  next
    case False
    with Cons.prems have "ranks_before y x"
      by (auto intro: ranks_before_total)
    with False Cons show ?thesis
      by (auto simp: cmp_pos set_top_insert)
  qed
qed

lemma take_top_insert_take:
  "take n (top_insert cmp x (take n ys)) = take n (top_insert cmp x ys)"
proof (induction ys arbitrary: n)
  case Nil
  then show ?case by simp
next
  case (Cons y ys)
  show ?case
  proof (cases n)
    case 0
    then show ?thesis by simp
  next
    case (Suc m)
    have "take m (y # take m ys) = take m (y # ys)"
      by (cases m) simp_all
    with Suc Cons.IH [of m] show ?thesis
      by simp
  qed
qed

lemma fold_top_Add:
  assumes "0 \<le> n"
  shows "fold (\<lambda>c acc. case acc of Inl msg \<Rightarrow> Inl msg | Inr best \<Rightarrow> top_Add cmp n c best) cs
           (Inr (take (nat n) b))
         = Inr (take (nat n) (fold (top_insert cmp) cs b))"
proof (induction cs arbitrary: b)
  case Nil
  then show ?case by simp
next
  case (Cons c cs)
  have "fold (\<lambda>c acc. case acc of Inl msg \<Rightarrow> Inl msg | Inr best \<Rightarrow> top_Add cmp n c best) (c # cs)
          (Inr (take (nat n) b))
        = fold (\<lambda>c acc. case acc of Inl msg \<Rightarrow> Inl msg | Inr best \<Rightarrow> top_Add cmp n c best) cs
            (Inr (take (nat n) (top_insert cmp c b)))"
    using assms by (simp add: top_Add_def take_top_insert_take)
  also have "\<dots> = Inr (take (nat n) (fold (top_insert cmp) cs (top_insert cmp c b)))"
    by (rule Cons.IH)
  finally show ?case by simp
qed

lemma fold_top_Add_neg:
  assumes "n < 0" and "cs \<noteq> []"
  shows "\<exists>msg. fold (\<lambda>c acc. case acc of Inl msg \<Rightarrow> Inl msg | Inr best \<Rightarrow> top_Add cmp n c best)
           cs acc = Inl msg"
  using assms(2)
proof (induction cs arbitrary: acc)
  case Nil
  then show ?case by simp
next
  case (Cons c cs)
  have step: "\<exists>msg. (case acc of Inl msg \<Rightarrow> Inl msg | Inr best \<Rightarrow> top_Add cmp n c best) = Inl msg"
    using assms(1) by (cases acc) (simp_all add: top_Add_def)
  show ?case
  proof (cases cs)
    case Nil
    with step show ?thesis by simp
  next
    case (Cons c' cs')
    then have "cs \<noteq> []" by simp
    from Cons.IH [OF this] show ?thesis by simp
  qed
qed

lemma Search_fold_candidates:
  "fold (Search_step madd target n) cache acc
     = fold (\<lambda>c acc. case acc of Inl msg \<Rightarrow> Inl msg
                     | Inr best \<Rightarrow> top_Add VectorResult_cmp n c best)
         (map (\<lambda>(name, vec). \<lparr>ID = name, Score = Dot madd target vec\<rparr>)
            (filter (\<lambda>(name, vec). length vec = length target) cache)) acc"
  by (induction cache arbitrary: acc) (auto simp: Search_step_def split: sum.splits)

lemma Search_eq:
  "0 \<le> n \<Longrightarrow> Search madd db target n
     = Inr (take (nat n) (fold (top_insert VectorResult_cmp) (candidates madd db target) []))"
  using fold_top_Add [of n VectorResult_cmp "candidates madd db target" "[]"]
  by (simp add: Search_def Search_fold_candidates candidates_def)

lemma Search_neg:
  "n < 0 \<Longrightarrow> candidates madd db target \<noteq> [] \<Longrightarrow> \<exists>msg. Search madd db target n = Inl msg"
  using fold_top_Add_neg [of n "candidates madd db target" VectorResult_cmp "Inr []"]
  by (simp add: Search_def Search_fold_candidates candidates_def)

lemma Search_none:
  "candidates madd db target = [] \<Longrightarrow> Search madd db target n = Inr []"
  by (simp add: Search_def Search_fold_candidates candidates_def)

lemma fold_top_insert_props:
  assumes "distinct (cs @ b)" and "sorted_wrt ranks_before b"
    and "\<forall>c \<in> set (cs @ b). Score c \<noteq> NaN"
  shows "sorted_wrt ranks_before (fold (top_insert VectorResult_cmp) cs b) \<and>
         set (fold (top_insert VectorResult_cmp) cs b) = set cs \<union> set b \<and>
         length (fold (top_insert VectorResult_cmp) cs b) = length cs + length b"
  using assms
proof (induction cs arbitrary: b)
  case Nil
  then show ?case by simp
next
  case (Cons c cs)
  from Cons.prems have c: "c \<notin> set b"
    and d: "distinct (cs @ top_insert VectorResult_cmp c b)"
    and n: "\<forall>c \<in> set (cs @ top_insert VectorResult_cmp c b). Score c \<noteq> NaN"
    and nc: "Score c \<noteq> NaN" and nb: "\<forall>y \<in> set b. Score y \<noteq> NaN"
    by (auto simp: set_top_insert distinct_top_insert)
  have s: "sorted_wrt ranks_before (top_insert VectorResult_cmp c b)"
    using Cons.prems(2) c nc nb by (rule sorted_top_insert)
  from Cons.IH [OF d s n] show ?case
    by (auto simp: set_top_insert length_top_insert)
qed

lemma sorted_wrt_take_drop:
  assumes "sorted_wrt P xs" and "x \<in> set (take n xs)" and "y \<in> set xs" and "y \<notin> set (take n xs)"
  shows "P x y"
proof -
  have "xs = take n xs @ drop n xs" by simp
  with assms(1) have "sorted_wrt P (take n xs @ drop n xs)" by simp
  then have "\<forall>a \<in> set (take n xs). \<forall>b \<in> set (drop n xs). P a b"
    unfolding sorted_wrt_append by blast
  moreover from assms(3,4) have "y \<in> set (drop n xs)"
    by (metis Un_iff append_take_drop_id set_append)
  ultimately show ?thesis using assms(2) by blast
qed

lemma distinct_candidates:
  assumes "distinct (map fst (vdb_cache db))"
  shows "distinct (candidates madd db target)"
proof -
  have "map ID (candidates madd db target)
          = map fst (filter (\<lambda>(name, vec). length vec = length target) (vdb_cache db))"
    by (simp add: candidates_def comp_def case_prod_unfold)
  moreover have "distinct (map fst (filter (\<lambda>(name, vec). length vec = length target) (vdb_cache db)))"
    using assms by (rule distinct_map_filter)
  ultimately have "distinct (map ID (candidates madd db target))" by simp
  then show ?thesis by (simp add: distinct_map)
qed

text \<open>
  Claim C4, as amended. For a cache with one vector for each id, a target for which no
  score is NaN, and \<open>n > 0\<close>, \<^verbatim>\<open>Search(target, n)\<close> returns candidates only (cached vectors
  as long as the target, with the score that \<^verbatim>\<open>Dot\<close> computes), \<open>n\<close> of them or all when
  there are fewer, in descending order of score and, at equal scores, in descending
  order of id; and every result ranks before every candidate that is not returned. With
  \<open>n < 0\<close> the search panics as soon as there is a candidate.
\<close>

theorem Search_top_n:
  assumes "distinct (map fst (vdb_cache db))"
    and "list_all (\<lambda>c. Score c \<noteq> NaN) (candidates madd db target)"
  shows "(0 < n \<longrightarrow>
           (\<exists>rs. Search madd db target n = Inr rs \<and>
              set rs \<subseteq> set (candidates madd db target) \<and>
              length rs = min (nat n) (length (candidates madd db target)) \<and>
              sorted_wrt ranks_before rs \<and>
              sorted_wrt f_ge (map Score rs) \<and>
              (\<forall>x \<in> set rs. \<forall>y \<in> set (candidates madd db target) - set rs. ranks_before x y))) \<and>
         (n < 0 \<and> candidates madd db target \<noteq> [] \<longrightarrow>
           (\<exists>msg. Search madd db target n = Inl msg))"
proof (intro conjI impI)
  assume "0 < n"
  then have n: "0 \<le> n" by simp
  define L where "L = fold (top_insert VectorResult_cmp) (candidates madd db target) []"
  define rs where "rs = take (nat n) L"
  have S: "Search madd db target n = Inr rs"
    using n by (simp add: Search_eq L_def rs_def)
  have nn: "\<forall>c \<in> set (candidates madd db target @ []). Score c \<noteq> NaN"
    using assms(2) by (simp add: list_all_iff)
  from fold_top_insert_props [of "candidates madd db target" "[]"] distinct_candidates [OF assms(1)] nn
  have srt: "sorted_wrt ranks_before L" and set: "set L = set (candidates madd db target)"
    and len: "length L = length (candidates madd db target)"
    by (simp_all add: L_def)
  have 1: "set rs \<subseteq> set (candidates madd db target)"
    using set_take_subset [of "nat n" L] by (simp add: rs_def set)
  have 2: "length rs = min (nat n) (length (candidates madd db target))"
    by (simp add: rs_def len min.commute)
  have 3: "sorted_wrt ranks_before rs"
    using srt by (simp add: rs_def)
  have "\<forall>x \<in> set rs. Score x \<noteq> NaN"
    using 1 nn by auto
  with 3 have 4: "sorted_wrt f_ge (map Score rs)"
  proof (induction rs)
    case Nil
    then show ?case by simp
  next
    case (Cons r rs)
    then show ?case
      by (auto simp: ranks_before_Score)
  qed
  have 5: "\<forall>x \<in> set rs. \<forall>y \<in> set (candidates madd db target) - set rs. ranks_before x y"
    using sorted_wrt_take_drop [OF srt] by (auto simp: rs_def set)
  from S 1 2 3 4 5
  show "\<exists>rs. Search madd db target n = Inr rs \<and>
              set rs \<subseteq> set (candidates madd db target) \<and>
              length rs = min (nat n) (length (candidates madd db target)) \<and>
              sorted_wrt ranks_before rs \<and>
              sorted_wrt f_ge (map Score rs) \<and>
              (\<forall>x \<in> set rs. \<forall>y \<in> set (candidates madd db target) - set rs. ranks_before x y)"
    by blast
next
  assume "n < 0 \<and> candidates madd db target \<noteq> []"
  then show "\<exists>msg. Search madd db target n = Inl msg"
    by (intro Search_neg) simp_all
qed

theorem Search_top_n_witness:
  "distinct (map fst (vdb_cache search_db)) \<and>
   list_all (\<lambda>c. Score c \<noteq> NaN) (candidates exact_madd search_db [Fin 1]) \<and>
   Search exact_madd search_db [Fin 1] 2
     = Inr [\<lparr>ID = ''b'', Score = Fin 1\<rparr>, \<lparr>ID = ''a'', Score = Fin 1\<rparr>] \<and>
   (\<exists>rs. Search exact_madd search_db [Fin 1] 2 = Inr rs \<and> sorted_wrt ranks_before rs \<and>
      length rs = min (nat 2) (length (candidates exact_madd search_db [Fin 1]))) \<and>
   candidates exact_madd search_db [Fin 1] \<noteq> [] \<and>
   (\<exists>msg. Search exact_madd search_db [Fin 1] (- 1) = Inl msg)"
proof -
  have d: "distinct (map fst (vdb_cache search_db))"
    by (simp add: search_db_def)
  have c: "candidates exact_madd search_db [Fin 1]
             = [\<lparr>ID = ''a'', Score = Fin 1\<rparr>, \<lparr>ID = ''c'', Score = Fin (1 / 2)\<rparr>,
                \<lparr>ID = ''b'', Score = Fin 1\<rparr>]"
    by (simp add: candidates_def search_db_def Dot_def)
  have nn: "list_all (\<lambda>c. Score c \<noteq> NaN) (candidates exact_madd search_db [Fin 1])"
    by (simp add: c)
  have ne: "candidates exact_madd search_db [Fin 1] \<noteq> []"
    by (simp add: c)
  have run: "Search exact_madd search_db [Fin 1] 2
      = Inr [\<lparr>ID = ''b'', Score = Fin 1\<rparr>, \<lparr>ID = ''a'', Score = Fin 1\<rparr>]"
    by (simp add: Search_def Search_step_def top_Add_def VectorResult_cmp_def Compare_def
        Compare_float_def f_ne_def Dot_def search_db_def)
  note T = Search_top_n [OF d nn]
  from T [of 2] have "\<exists>rs. Search exact_madd search_db [Fin 1] 2 = Inr rs \<and>
      sorted_wrt ranks_before rs \<and>
      length rs = min (nat 2) (length (candidates exact_madd search_db [Fin 1]))"
    by auto
  moreover from T [of "- 1"] ne have "\<exists>msg. Search exact_madd search_db [Fin 1] (- 1) = Inl msg"
    by simp
  ultimately show ?thesis
    using d nn run ne by (intro conjI)
qed

theorem Search_tie_counterexample:
  "Search exact_madd \<lparr>vdb_storage = [], vdb_namespace = ''ns'',
           vdb_cache = [(''a'', [Fin 1]), (''b'', [Fin 1])]\<rparr> [Fin 1] 1
     = Inr [\<lparr>ID = ''b'', Score = Fin 1\<rparr>] \<and>
   Search exact_madd \<lparr>vdb_storage = [], vdb_namespace = ''ns'',
           vdb_cache = [(''b'', [Fin 1]), (''a'', [Fin 1])]\<rparr> [Fin 1] 1
     = Inr [\<lparr>ID = ''b'', Score = Fin 1\<rparr>] \<and>
   Search exact_madd \<lparr>vdb_storage = [], vdb_namespace = ''ns'',
           vdb_cache = [(''a'', [Fin 1]), (''b'', [Fin 1])]\<rparr> [Fin 1] 2
     = Inr [\<lparr>ID = ''b'', Score = Fin 1\<rparr>, \<lparr>ID = ''a'', Score = Fin 1\<rparr>]"
  by (simp add: Search_def Search_step_def top_Add_def VectorResult_cmp_def Compare_def
      Compare_float_def f_ne_def Dot_def)

text \<open>
  Scores are compared as \<^verbatim>\<open>Dot\<close> computes them: when the machine rounds the sums of two
  vectors to the same float64, the two tie, and the greater id comes first.
\<close>

lemma Search_rounding_tie:
  assumes "madd (Fin 0) (Fin 1) (Fin 1) = Fin 1"
    and "madd (Fin 1) (Fin e) (Fin e) = Fin 1" and "madd (Fin 1) (Fin e) (Fin 0) = Fin 1"
  shows "Search madd \<lparr>vdb_storage = [], vdb_namespace = ''ns'',
           vdb_cache = [(''a'', [Fin 1, Fin e]), (''b'', [Fin 1, Fin 0])]\<rparr> [Fin 1, Fin e] 1
     = Inr [\<lparr>ID = ''b'', Score = Fin 1\<rparr>]"
  using assms
  by (simp add: Search_def Search_step_def top_Add_def VectorResult_cmp_def Compare_def
      Compare_float_def f_ne_def Dot_def)


section \<open>Proofs: rate limits in Client.get\<close>



text \<open>
  The duration slept when the reset time is not in the past: one minute less the time
  left until the reset, which is negative (no sleep at all) when the reset is more than
  a minute away.
\<close>

lemma rateLimit_sleep_duration:
  assumes "StatusCode resp = 403" and "RatelimitRemaining resp = ''0''"
    and "RatelimitReset resp \<noteq> 0" and "Now resp \<le> RatelimitReset resp * Second"
  shows "rateLimit resp = (True, Some (1 * Minute - (RatelimitReset resp * Second - Now resp)))"
  using assms by (auto simp: rateLimit_def Let_def)





section \<open>Proofs: syncIssueEvents\<close>

lemma body_loop_fresh:
  assumes "\<forall>ev \<in> set evs. fresh_event proj ev"
  shows "\<exists>w'. body_loop proj 0 False etag evs w = (w', Next) \<and> stopped w' = stopped w \<and>
           (evs = [] \<longrightarrow> w' = w) \<and>
           (evs \<noteq> [] \<longrightarrow> ev_meta (last evs) = Some (the (ev_meta (last evs))) \<and>
               lastID w' = m_ID (the (ev_meta (last evs))) \<and> lastID w' \<noteq> 0)"
  using assms
proof (induction evs arbitrary: w)
  case Nil
  then show ?case by simp
next
  case (Cons ev evs)
  then obtain m where m: "ev_meta ev = Some m" "m_ID m \<noteq> 0" "m_IssueNumber m \<noteq> 0"
    "EventID proj < m_ID m"
    by (auto simp: fresh_event_def)
  define w2 where "w2 = (if firstID w = 0 then w\<lparr>firstID := m_ID m, firstETag := etag\<rparr> else w)
      \<lparr>lastID := m_ID m\<rparr>"
  define w3 where "w3 = w2\<lparr>writes := writes w2 @
      [(Name proj, m_IssueNumber m, ''/issues/events'', m_ID m, ev_raw ev)]\<rparr>"
  have step: "body_loop proj 0 False etag (ev # evs) w = body_loop proj 0 False etag evs w3"
    using m by (simp add: Let_def w2_def w3_def)
  have st: "stopped w3 = stopped w" and l: "lastID w3 = m_ID m"
    by (simp_all add: w2_def w3_def)
  from Cons.prems have "\<forall>ev \<in> set evs. fresh_event proj ev" by simp
  from Cons.IH [OF this, of w3] obtain w' where
    w': "body_loop proj 0 False etag evs w3 = (w', Next)" "stopped w' = stopped w3"
      "evs = [] \<longrightarrow> w' = w3"
      "evs \<noteq> [] \<longrightarrow> ev_meta (last evs) = Some (the (ev_meta (last evs))) \<and>
               lastID w' = m_ID (the (ev_meta (last evs))) \<and> lastID w' \<noteq> 0"
    by blast
  show ?case
    using step w' st l m by (cases "evs = []") auto
qed


lemma all_events_last:
  "all_events pages \<noteq> [] \<Longrightarrow> pg_body pg = [] \<Longrightarrow>
     last (all_events (YieldPage pg # pages)) = last (all_events pages)"
  by simp

lemma pages_loop_fresh:
  assumes "\<forall>y \<in> set pages. \<exists>pg. y = YieldPage pg"
    and "\<forall>ev \<in> set (all_events pages). fresh_event proj ev"
  shows "\<exists>w'. pages_loop proj 0 False pages w = (w', Done) \<and> stopped w' = stopped w \<and>
           (all_events pages = [] \<longrightarrow> w' = w) \<and>
           (all_events pages \<noteq> [] \<longrightarrow>
               ev_meta (last (all_events pages)) = Some (the (ev_meta (last (all_events pages)))) \<and>
               lastID w' = m_ID (the (ev_meta (last (all_events pages)))) \<and> lastID w' \<noteq> 0)"
  using assms
proof (induction pages arbitrary: w)
  case Nil
  then show ?case by simp
next
  case (Cons y pages)
  then obtain pg where y: "y = YieldPage pg" by auto
  from Cons.prems y have f: "\<forall>ev \<in> set (pg_body pg). fresh_event proj ev"
    and f': "\<forall>ev \<in> set (all_events pages). fresh_event proj ev"
    and p': "\<forall>y \<in> set pages. \<exists>pg. y = YieldPage pg"
    by auto
  from body_loop_fresh [OF f, of "pg_Etag pg" w] obtain w1 where
    w1: "body_loop proj 0 False (pg_Etag pg) (pg_body pg) w = (w1, Next)"
      "stopped w1 = stopped w" "pg_body pg = [] \<longrightarrow> w1 = w"
      "pg_body pg \<noteq> [] \<longrightarrow> ev_meta (last (pg_body pg)) = Some (the (ev_meta (last (pg_body pg)))) \<and>
               lastID w1 = m_ID (the (ev_meta (last (pg_body pg)))) \<and> lastID w1 \<noteq> 0"
    by blast
  from Cons.IH [OF p' f', of w1] obtain w' where
    w': "pages_loop proj 0 False pages w1 = (w', Done)" "stopped w' = stopped w1"
      "all_events pages = [] \<longrightarrow> w' = w1"
      "all_events pages \<noteq> [] \<longrightarrow>
               ev_meta (last (all_events pages)) = Some (the (ev_meta (last (all_events pages)))) \<and>
               lastID w' = m_ID (the (ev_meta (last (all_events pages)))) \<and> lastID w' \<noteq> 0"
    by blast
  have run: "pages_loop proj 0 False (y # pages) w = (w', Done)"
    using y w1(1) w'(1) by simp
  show ?case
  proof (cases "all_events pages = []")
    case True
    with run w1 w' y show ?thesis by (cases "pg_body pg = []") auto
  next
    case False
    with run w1 w' y show ?thesis by auto
  qed
qed

text \<open>What a walk that ends the loop says of the pages, whatever they hold.\<close>

lemma body_loop_exits:
  assumes "body_loop proj 0 False etag evs w = (w', x)"
  shows "(stopped w' \<longrightarrow> stopped w \<or>
            (\<exists>ev \<in> set evs. \<exists>m. ev_meta ev = Some m \<and> m_ID m \<le> EventID proj)) \<and>
         (x = Break \<longrightarrow> stopped w') \<and>
         (x = Next \<and> lastID w' = 0 \<longrightarrow> evs = [] \<and> w' = w)"
  using assms
proof (induction evs arbitrary: w)
  case Nil
  then show ?case by auto
next
  case (Cons ev evs)
  show ?case
  proof (cases "ev_meta ev")
    case None
    with Cons.prems show ?thesis by auto
  next
    case (Some m)
    define w2 where "w2 = (if firstID w = 0 then w\<lparr>firstID := m_ID m, firstETag := etag\<rparr> else w)
      \<lparr>lastID := m_ID m\<rparr>"
    define w3 where "w3 = w2\<lparr>writes := writes w2 @
      [(Name proj, m_IssueNumber m, ''/issues/events'', m_ID m, ev_raw ev)]\<rparr>"
    have st: "stopped w3 = stopped w" "lastID w3 = m_ID m" "stopped w2 = stopped w"
      by (simp_all add: w2_def w3_def)
    consider (bad) "m_IssueNumber m = 0 \<or> m_ID m = 0"
      | (stop) "m_IssueNumber m \<noteq> 0" "m_ID m \<noteq> 0" "EventID proj \<noteq> 0 \<and> m_ID m \<le> EventID proj"
      | (go) "m_IssueNumber m \<noteq> 0" "m_ID m \<noteq> 0" "\<not> (EventID proj \<noteq> 0 \<and> m_ID m \<le> EventID proj)"
      by blast
    then show ?thesis
    proof cases
      case bad
      with Cons.prems Some show ?thesis by (auto split: if_splits)
    next
      case stop
      with Cons.prems Some have "w' = w2\<lparr>stopped := True\<rparr>" "x = Break"
        by (auto simp: Let_def w2_def)
      with stop Some show ?thesis by (auto simp: w2_def)
    next
      case go
      with Cons.prems Some have rec: "body_loop proj 0 False etag evs w3 = (w', x)"
        by (auto simp: Let_def w2_def w3_def)
      from Cons.IH [OF rec] st go show ?thesis by auto
    qed
  qed
qed

lemma pages_loop_exits:
  assumes "pages_loop proj 0 False pages w = (w', Done)"
  shows "(stopped w' \<longrightarrow> stopped w \<or>
            (\<exists>ev \<in> set (all_events pages). \<exists>m. ev_meta ev = Some m \<and> m_ID m \<le> EventID proj)) \<and>
         (lastID w' = 0 \<and> \<not> stopped w' \<longrightarrow> all_events pages = [] \<and> w' = w)"
  using assms
proof (induction pages arbitrary: w)
  case Nil
  then show ?case by auto
next
  case (Cons y pages)
  show ?case
  proof (cases y)
    case (YieldErr e)
    with Cons.prems show ?thesis by (auto split: if_splits)
  next
    case (YieldPage pg)
    obtain w1 x where b: "body_loop proj 0 False (pg_Etag pg) (pg_body pg) w = (w1, x)"
      by (cases "body_loop proj 0 False (pg_Etag pg) (pg_body pg) w") auto
    note B = body_loop_exits [OF b]
    show ?thesis
    proof (cases x)
      case Next
      with Cons.prems YieldPage b have rec: "pages_loop proj 0 False pages w1 = (w', Done)"
        by simp
      from Cons.IH [OF rec] B Next YieldPage show ?thesis by auto
    next
      case Break
      with Cons.prems YieldPage b have "w' = w1" by simp
      with B Break YieldPage show ?thesis by auto
    next
      case (Return e)
      with Cons.prems YieldPage b show ?thesis by simp
    qed
  qed
qed


text \<open>
  Claim C6. For an incremental event sync (\<open>issue = 0\<close>, not \<open>onlySetLatest\<close>) of a
  project with \<open>EventID > 0\<close>: when every page arrives, the walk reads at least one element
  and every element is new (its id is greater than \<open>EventID\<close>), \<^verbatim>\<open>syncIssueEvents\<close> returns
  the error \<^verbatim>\<open>lost sync\<close> between \<open>EventID\<close> and the last id read, leaves the project
  state as it was and stores nothing. And whenever it returns with the project state
  changed, it returns no error and the walk met an id that is at most \<open>EventID\<close> or read
  no element at all.
\<close>

theorem syncIssueEvents_lost_sync:
  assumes "0 < EventID proj"
  shows "((\<forall>y \<in> set pages. \<exists>pg. y = YieldPage pg) \<and>
          (\<forall>ev \<in> set (all_events pages). fresh_event proj ev) \<and> all_events pages \<noteq> [] \<longrightarrow>
            (\<exists>out m. syncIssueEvents proj 0 False pages = Inr out \<and>
               ev_meta (last (all_events pages)) = Some m \<and>
               s_err out = Some (LostSync (EventID proj) (m_ID m)) \<and>
               s_proj out = proj \<and> s_stored out = [])) \<and>
         (\<forall>out. syncIssueEvents proj 0 False pages = Inr out \<and> s_proj out \<noteq> proj \<longrightarrow>
            s_err out = None \<and>
            (all_events pages = [] \<or>
             (\<exists>ev \<in> set (all_events pages). \<exists>m. ev_meta ev = Some m \<and> m_ID m \<le> EventID proj)))"
proof (intro conjI impI allI)
  let ?w0 = "\<lparr>firstID = 0, firstETag = [], lastID = 0, stopped = False, writes = []\<rparr>"
  assume a: "(\<forall>y \<in> set pages. \<exists>pg. y = YieldPage pg) \<and>
          (\<forall>ev \<in> set (all_events pages). fresh_event proj ev) \<and> all_events pages \<noteq> []"
  then have p: "\<forall>y \<in> set pages. \<exists>pg. y = YieldPage pg"
    and f: "\<forall>ev \<in> set (all_events pages). fresh_event proj ev" and ne: "all_events pages \<noteq> []"
    by auto
  from pages_loop_fresh [OF p f, of ?w0] ne obtain w' where
    w': "pages_loop proj 0 False pages ?w0 = (w', Done)" "stopped w' = False"
      "ev_meta (last (all_events pages)) = Some (the (ev_meta (last (all_events pages))))"
      "lastID w' = m_ID (the (ev_meta (last (all_events pages))))" "lastID w' \<noteq> 0"
    by auto
  then show "\<exists>out m. syncIssueEvents proj 0 False pages = Inr out \<and>
               ev_meta (last (all_events pages)) = Some m \<and>
               s_err out = Some (LostSync (EventID proj) (m_ID m)) \<and>
               s_proj out = proj \<and> s_stored out = []"
    by (intro exI [of _ "\<lparr>s_err = Some (LostSync (EventID proj) (lastID w')), s_proj = proj,
                   s_written = writes w', s_stored = []\<rparr>"]
          exI [of _ "the (ev_meta (last (all_events pages)))"])
       (simp add: syncIssueEvents_def)
next
  fix out
  let ?w0 = "\<lparr>firstID = 0, firstETag = [], lastID = 0, stopped = False, writes = []\<rparr>"
  assume a: "syncIssueEvents proj 0 False pages = Inr out \<and> s_proj out \<noteq> proj"
  obtain w x where run: "pages_loop proj 0 False pages ?w0 = (w, x)"
    by (cases "pages_loop proj 0 False pages ?w0") auto
  from a run have x: "x = Done" and c: "lastID w = 0 \<or> stopped w" and e: "s_err out = None"
    by (cases x; auto simp: syncIssueEvents_def split: if_splits)+
  from pages_loop_exits [OF run [unfolded x]] c
  have "all_events pages = [] \<or>
      (\<exists>ev \<in> set (all_events pages). \<exists>m. ev_meta ev = Some m \<and> m_ID m \<le> EventID proj)"
    by auto
  with e show "s_err out = None"
    and "all_events pages = [] \<or>
      (\<exists>ev \<in> set (all_events pages). \<exists>m. ev_meta ev = Some m \<and> m_ID m \<le> EventID proj)"
    by auto
qed

theorem syncIssueEvents_lost_sync_witness:
  "0 < EventID proj_100 \<and>
   list_all (\<lambda>y. \<exists>pg. y = YieldPage pg) gap_pages \<and>
   list_all (fresh_event proj_100) (all_events gap_pages) \<and> all_events gap_pages \<noteq> [] \<and>
   (\<exists>out. syncIssueEvents proj_100 0 False gap_pages = Inr out \<and>
      s_err out = Some (LostSync 100 102) \<and> s_proj out = proj_100 \<and> s_stored out = []) \<and>
   (\<exists>out. syncIssueEvents proj_100 0 False seen_pages = Inr out \<and> s_proj out \<noteq> proj_100 \<and>
      EventID (s_proj out) = 105 \<and> s_err out = None \<and>
      (\<exists>ev \<in> set (all_events seen_pages). \<exists>m. ev_meta ev = Some m \<and> m_ID m \<le> EventID proj_100))"
proof -
  have pos: "0 < EventID proj_100"
    by (simp add: proj_100_def)
  have p: "\<forall>y \<in> set gap_pages. \<exists>pg. y = YieldPage pg"
    by (simp add: gap_pages_def)
  have f: "\<forall>ev \<in> set (all_events gap_pages). fresh_event proj_100 ev"
    by (simp add: gap_pages_def fresh_event_def feed_event_def proj_100_def)
  have ne: "all_events gap_pages \<noteq> []"
    by (simp add: gap_pages_def)
  have l: "ev_meta (last (all_events gap_pages)) = Some \<lparr>m_ID = 102, m_URL = [], m_IssueNumber = 7\<rparr>"
    by (simp add: gap_pages_def feed_event_def)
  from syncIssueEvents_lost_sync [OF pos, of gap_pages] p f ne
  obtain out m where o: "syncIssueEvents proj_100 0 False gap_pages = Inr out"
    "ev_meta (last (all_events gap_pages)) = Some m"
    "s_err out = Some (LostSync (EventID proj_100) (m_ID m))"
    "s_proj out = proj_100" "s_stored out = []"
    by blast
  with l have 1: "\<exists>out. syncIssueEvents proj_100 0 False gap_pages = Inr out \<and>
      s_err out = Some (LostSync 100 102) \<and> s_proj out = proj_100 \<and> s_stored out = []"
    by (auto simp: proj_100_def)
  define out2 where "out2 = \<lparr>s_err = None,
      s_proj = proj_100\<lparr>EventID := 105, EventETag := ''W/p1''\<rparr>,
      s_written = [(''rsc/markdown'', 7, ''/issues/events'', 105, ''{}'')],
      s_stored = [proj_100\<lparr>EventID := 105, EventETag := ''W/p1''\<rparr>]\<rparr>"
  have run2: "syncIssueEvents proj_100 0 False seen_pages = Inr out2"
    by (simp add: syncIssueEvents_def seen_pages_def feed_event_def proj_100_def out2_def Let_def)
  have ch: "s_proj out2 \<noteq> proj_100" and id2: "EventID (s_proj out2) = 105"
    by (simp_all add: out2_def proj_100_def)
  from syncIssueEvents_lost_sync [OF pos, of seen_pages] run2 ch
  have "s_err out2 = None \<and> (all_events seen_pages = [] \<or>
      (\<exists>ev \<in> set (all_events seen_pages). \<exists>m. ev_meta ev = Some m \<and> m_ID m \<le> EventID proj_100))"
    by blast
  moreover have "all_events seen_pages \<noteq> []"
    by (simp add: seen_pages_def)
  ultimately have 2: "\<exists>out. syncIssueEvents proj_100 0 False seen_pages = Inr out \<and>
      s_proj out \<noteq> proj_100 \<and> EventID (s_proj out) = 105 \<and> s_err out = None \<and>
      (\<exists>ev \<in> set (all_events seen_pages). \<exists>m. ev_meta ev = Some m \<and> m_ID m \<le> EventID proj_100)"
    using run2 ch id2 by blast
  have p': "list_all (\<lambda>y. \<exists>pg. y = YieldPage pg) gap_pages"
    using p by (simp only: list_all_iff)
  have f': "list_all (fresh_event proj_100) (all_events gap_pages)"
    using f by (simp only: list_all_iff)
  show ?thesis
    using pos p' f' ne 1 2 by (intro conjI)
qed

section \<open>Proofs: the related-issues poster\<close>

lemma posted_key_inj [simp]:
  "(posted_key pr iss = posted_key pr' iss') = (pr = pr' \<and> iss = iss')"
  by (auto simp: posted_key_def)

lemma posted_key_ne_watcher [simp]:
  "posted_key pr iss \<noteq> w_dkey (Poster_watcher p)"
  by (simp add: posted_key_def Poster_watcher_def EventWatcher_def NewWatcher_def)

lemma marked_mark_old:
  "marked (rs_db (mark_old p t st)) pr iss = marked (rs_db st) pr iss"
  by (auto simp: mark_old_def MarkOld_def marked_def memDB_Get_Set split: sum.splits)

lemma marked_Set:
  "marked (memDB_Set db (posted_key a b) v) pr iss = (marked db pr iss \<or> (pr = a \<and> iss = b))"
  by (auto simp: marked_def memDB_Get_Set)

lemma posts_mark_old [simp]: "rs_posts (mark_old p t st) = rs_posts st"
  by (auto simp: mark_old_def split: sum.splits)

text \<open>One event: at most one call, for an unmarked issue; the marker follows success.\<close>

lemma Poster_post_step:
  assumes "\<not> marked (rs_db st) (e_Project e) (e_Issue e)"
  shows "\<exists>new. rs_posts (Poster_post p env e results st) = rs_posts st @ new \<and>
           (new = [] \<or> (\<exists>c ok. new = [(e_Project e, e_Issue e, c, ok)])) \<and>
           (\<forall>pr iss. marked (rs_db (Poster_post p env e results st)) pr iss \<longleftrightarrow>
              marked (rs_db st) pr iss \<or> (\<exists>c. (pr, iss, c, True) \<in> set new))"
  using assms by (auto simp: Poster_post_def marked_mark_old marked_Set)

lemma Poster_consider_step:
  "\<exists>new. rs_posts (Poster_consider p env vdb e st) = rs_posts st @ new \<and>
     (new = [] \<or> (\<not> marked (rs_db st) (e_Project e) (e_Issue e) \<and>
                    (\<exists>c ok. new = [(e_Project e, e_Issue e, c, ok)]))) \<and>
     (\<forall>pr iss. marked (rs_db (Poster_consider p env vdb e st)) pr iss \<longleftrightarrow>
        marked (rs_db st) pr iss \<or> (\<exists>c. (pr, iss, c, True) \<in> set new))"
proof (cases "marked (rs_db st) (e_Project e) (e_Issue e)")
  case True
  then have "\<And>issue. Poster_unposted p env vdb e st = st"
    by (simp add: Poster_unposted_def marked_def)
  then have "rs_posts (Poster_consider p env vdb e st) = rs_posts st"
    and "rs_db (Poster_consider p env vdb e st) = rs_db st"
    by (auto simp: Poster_consider_def Poster_issue_def split: Typed.splits option.splits)
  then show ?thesis by simp
next
  case False
  from Poster_post_step [OF False]
  have post: "\<And>results. \<exists>new. rs_posts (Poster_post p env e results st) = rs_posts st @ new \<and>
           (new = [] \<or> (\<not> marked (rs_db st) (e_Project e) (e_Issue e) \<and>
              (\<exists>c ok. new = [(e_Project e, e_Issue e, c, ok)]))) \<and>
           (\<forall>pr iss. marked (rs_db (Poster_post p env e results st)) pr iss \<longleftrightarrow>
              marked (rs_db st) pr iss \<or> (\<exists>c. (pr, iss, c, True) \<in> set new))"
    using False by blast
  have same: "\<exists>new. rs_posts st = rs_posts st @ new \<and>
           (new = [] \<or> (\<not> marked (rs_db st) (e_Project e) (e_Issue e) \<and>
              (\<exists>c ok. new = [(e_Project e, e_Issue e, c, ok)]))) \<and>
           (\<forall>pr iss. marked (rs_db st) pr iss \<longleftrightarrow>
              marked (rs_db st) pr iss \<or> (\<exists>c. (pr, iss, c, True) \<in> set new))"
    by simp
  have pan: "\<And>msg. \<exists>new. rs_posts (st\<lparr>rs_panic := Some msg\<rparr>) = rs_posts st @ new \<and>
           (new = [] \<or> (\<not> marked (rs_db st) (e_Project e) (e_Issue e) \<and>
              (\<exists>c ok. new = [(e_Project e, e_Issue e, c, ok)]))) \<and>
           (\<forall>pr iss. marked (rs_db (st\<lparr>rs_panic := Some msg\<rparr>)) pr iss \<longleftrightarrow>
              marked (rs_db st) pr iss \<or> (\<exists>c. (pr, iss, c, True) \<in> set new))"
    by simp
  show ?thesis
    unfolding Poster_consider_def Poster_issue_def Poster_unposted_def
    using post same pan
    by (simp split: Typed.splits option.splits sum.splits)
qed


lemma Run_events_posts:
  "\<exists>new. rs_posts (Run_events p env vdb es st) = rs_posts st @ new \<and>
     (\<forall>pr iss. marked (rs_db (Run_events p env vdb es st)) pr iss \<longleftrightarrow>
        marked (rs_db st) pr iss \<or> (\<exists>c. (pr, iss, c, True) \<in> set new)) \<and>
     (\<forall>pr iss c ok. (pr, iss, c, ok) \<in> set new \<longrightarrow> \<not> marked (rs_db st) pr iss) \<and>
     (\<forall>pr iss a c b. new = a @ (pr, iss, c, True) # b \<longrightarrow>
        (\<forall>c' ok'. (pr, iss, c', ok') \<notin> set b))"
proof (induction es arbitrary: st)
  case Nil
  show ?case by simp
next
  case (Cons e es)
  show ?case
  proof (cases "rs_panic st \<noteq> None")
    case True
    then show ?thesis by simp
  next
    case False
    define st1 where "st1 = Poster_consider p env vdb e st"
    from Poster_consider_step [of p env vdb e st] obtain new1 where
      n1: "rs_posts st1 = rs_posts st @ new1"
        "new1 = [] \<or> (\<not> marked (rs_db st) (e_Project e) (e_Issue e) \<and>
                    (\<exists>c ok. new1 = [(e_Project e, e_Issue e, c, ok)]))"
        "\<forall>pr iss. marked (rs_db st1) pr iss \<longleftrightarrow>
           marked (rs_db st) pr iss \<or> (\<exists>c. (pr, iss, c, True) \<in> set new1)"
      unfolding st1_def by blast
    from Cons.IH [of st1] obtain new2 where
      n2: "rs_posts (Run_events p env vdb es st1) = rs_posts st1 @ new2"
        "\<forall>pr iss. marked (rs_db (Run_events p env vdb es st1)) pr iss \<longleftrightarrow>
           marked (rs_db st1) pr iss \<or> (\<exists>c. (pr, iss, c, True) \<in> set new2)"
        "\<forall>pr iss c ok. (pr, iss, c, ok) \<in> set new2 \<longrightarrow> \<not> marked (rs_db st1) pr iss"
        "\<forall>pr iss a c b. new2 = a @ (pr, iss, c, True) # b \<longrightarrow>
           (\<forall>c' ok'. (pr, iss, c', ok') \<notin> set b)"
      by blast
    have run: "Run_events p env vdb (e # es) st = Run_events p env vdb es st1"
      using False by (simp add: st1_def)
    have 1: "rs_posts (Run_events p env vdb (e # es) st) = rs_posts st @ (new1 @ new2)"
      using run n1(1) n2(1) by simp
    have 2: "\<forall>pr iss. marked (rs_db (Run_events p env vdb (e # es) st)) pr iss \<longleftrightarrow>
        marked (rs_db st) pr iss \<or> (\<exists>c. (pr, iss, c, True) \<in> set (new1 @ new2))"
      using run n1(3) n2(2) by auto
    have 3: "\<forall>pr iss c ok. (pr, iss, c, ok) \<in> set (new1 @ new2) \<longrightarrow> \<not> marked (rs_db st) pr iss"
    proof (intro allI impI)
      fix pr iss c ok
      assume "(pr, iss, c, ok) \<in> set (new1 @ new2)"
      then consider (a) "(pr, iss, c, ok) \<in> set new1" | (b) "(pr, iss, c, ok) \<in> set new2"
        by auto
      then show "\<not> marked (rs_db st) pr iss"
      proof cases
        case a
        with n1(2) show ?thesis by auto
      next
        case b
        with n2(3) have "\<not> marked (rs_db st1) pr iss" by blast
        with n1(3) show ?thesis by blast
      qed
    qed
    have 4: "\<forall>pr iss a c b. new1 @ new2 = a @ (pr, iss, c, True) # b \<longrightarrow>
        (\<forall>c' ok'. (pr, iss, c', ok') \<notin> set b)"
    proof (intro allI impI)
      fix pr iss a c b c' ok'
      assume eq: "new1 @ new2 = a @ (pr, iss, c, True) # b"
      show "(pr, iss, c', ok') \<notin> set b"
      proof (cases "new1 = []")
        case True
        with eq n2(4) show ?thesis by auto
      next
        case False
        with n1(2) obtain c1 ok1 where x: "new1 = [(e_Project e, e_Issue e, c1, ok1)]"
          by blast
        show ?thesis
        proof (cases a)
          case Nil
          with eq x have "b = new2" and "(pr, iss, c, True) \<in> set new1"
            by auto
          with n1(3) n2(3) show ?thesis by blast
        next
          case (Cons y a')
          with eq x have "new2 = a' @ (pr, iss, c, True) # b" by simp
          with n2(4) show ?thesis by blast
        qed
      qed
    qed
    from 1 2 3 4 show ?thesis by blast
  qed
qed

lemma new_posts_append: "rs_posts st' = rs_posts st @ new \<Longrightarrow> new_posts st st' = new"
  by (simp add: new_posts_def)

lemma Poster_Run_posts:
  "\<exists>st. rs_posts (Poster_Run p env vdb decode db) = rs_posts st \<and>
        rs_db (Poster_Run p env vdb decode db) = rs_db st \<and>
        (\<exists>es. st = Run_events p env vdb es \<lparr>rs_db = db, rs_posts = [], rs_panic = None\<rparr>)"
  by (cases "Recent (Poster_watcher p) db decode") (auto simp: Poster_Run_def Let_def)

text \<open>
  Claim C5. For two runs of the poster, the second on the database the first leaves
  (whatever the configuration, the vectors and the events of either): after a run the
  marker of an issue is in the database exactly when it was there before or a call of
  \<^verbatim>\<open>PostIssueComment\<close> for the issue succeeded in the run; no call is made for an issue
  whose marker is there at the start; no call follows a successful one for the same
  issue within the run; and the second run makes no call for an issue that the first
  posted to with success.
\<close>

theorem Poster_Run_idempotent:
  "(\<forall>pr iss. marked (rs_db (Poster_Run p env vdb decode db)) pr iss \<longleftrightarrow>
      marked db pr iss \<or> (\<exists>c. (pr, iss, c, True) \<in> set (rs_posts (Poster_Run p env vdb decode db)))) \<and>
   (\<forall>pr iss. marked db pr iss \<longrightarrow>
      (\<forall>c ok. (pr, iss, c, ok) \<notin> set (rs_posts (Poster_Run p env vdb decode db)))) \<and>
   (\<forall>pr iss a c b. rs_posts (Poster_Run p env vdb decode db) = a @ (pr, iss, c, True) # b \<longrightarrow>
      (\<forall>c' ok'. (pr, iss, c', ok') \<notin> set b)) \<and>
   (\<forall>pr iss c. (pr, iss, c, True) \<in> set (rs_posts (Poster_Run p env vdb decode db)) \<longrightarrow>
      (\<forall>c' ok'. (pr, iss, c', ok') \<notin>
         set (rs_posts (Poster_Run p2 env2 vdb2 decode2 (rs_db (Poster_Run p env vdb decode db))))))"
proof -
  define st1 where "st1 = Poster_Run p env vdb decode db"
  define st2 where "st2 = Poster_Run p2 env2 vdb2 decode2 (rs_db st1)"
  have run: "\<And>p env vdb decode db.
      (\<forall>pr iss. marked (rs_db (Poster_Run p env vdb decode db)) pr iss \<longleftrightarrow>
         marked db pr iss \<or> (\<exists>c. (pr, iss, c, True) \<in> set (rs_posts (Poster_Run p env vdb decode db)))) \<and>
      (\<forall>pr iss c ok. (pr, iss, c, ok) \<in> set (rs_posts (Poster_Run p env vdb decode db)) \<longrightarrow>
         \<not> marked db pr iss) \<and>
      (\<forall>pr iss a c b. rs_posts (Poster_Run p env vdb decode db) = a @ (pr, iss, c, True) # b \<longrightarrow>
         (\<forall>c' ok'. (pr, iss, c', ok') \<notin> set b))"
  proof -
    fix p env vdb decode db
    from Poster_Run_posts [of p env vdb decode db] obtain es where
      r: "rs_posts (Poster_Run p env vdb decode db)
            = rs_posts (Run_events p env vdb es \<lparr>rs_db = db, rs_posts = [], rs_panic = None\<rparr>)"
         "rs_db (Poster_Run p env vdb decode db)
            = rs_db (Run_events p env vdb es \<lparr>rs_db = db, rs_posts = [], rs_panic = None\<rparr>)"
      by auto
    from Run_events_posts [of p env vdb es "\<lparr>rs_db = db, rs_posts = [], rs_panic = None\<rparr>"]
    show "(\<forall>pr iss. marked (rs_db (Poster_Run p env vdb decode db)) pr iss \<longleftrightarrow>
         marked db pr iss \<or> (\<exists>c. (pr, iss, c, True) \<in> set (rs_posts (Poster_Run p env vdb decode db)))) \<and>
      (\<forall>pr iss c ok. (pr, iss, c, ok) \<in> set (rs_posts (Poster_Run p env vdb decode db)) \<longrightarrow>
         \<not> marked db pr iss) \<and>
      (\<forall>pr iss a c b. rs_posts (Poster_Run p env vdb decode db) = a @ (pr, iss, c, True) # b \<longrightarrow>
         (\<forall>c' ok'. (pr, iss, c', ok') \<notin> set b))"
      unfolding r by simp
  qed
  note r1 = run [of p env vdb decode db, folded st1_def]
  note r2 = run [of p2 env2 vdb2 decode2 "rs_db st1", folded st2_def]
  note 1 = r1 [THEN conjunct1]
  note n1 = r1 [THEN conjunct2, THEN conjunct1]
  note 3 = r1 [THEN conjunct2, THEN conjunct2]
  note n2 = r2 [THEN conjunct2, THEN conjunct1]
  have 4: "\<forall>pr iss c. (pr, iss, c, True) \<in> set (rs_posts st1) \<longrightarrow>
      (\<forall>c' ok'. (pr, iss, c', ok') \<notin> set (rs_posts st2))"
  proof (intro allI impI notI)
    fix pr iss c c' ok'
    assume "(pr, iss, c, True) \<in> set (rs_posts st1)"
    with 1 have "marked (rs_db st1) pr iss" by blast
    moreover assume "(pr, iss, c', ok') \<in> set (rs_posts st2)"
    with n2 have "\<not> marked (rs_db st1) pr iss" by blast
    ultimately show False by simp
  qed
  have 2: "\<forall>pr iss. marked db pr iss \<longrightarrow> (\<forall>c ok. (pr, iss, c, ok) \<notin> set (rs_posts st1))"
    using n1 by blast
  show ?thesis
    using 1 2 3 4 unfolding st1_def st2_def by (intro conjI)
qed

lemma ex_events:
  "Recent (Poster_watcher ex_poster) ex_db ex_decode =
     ([\<lparr>e_DBTime = 5, e_Project = ''rsc/markdown'', e_Issue = 1,
        e_API = ''/issues'', e_ID = 100, e_Typed = TIssue ex_issue\<rparr>], None)"
  by code_simp

lemma ex_results:
  "related_results ex_poster ex_env ex_vdb ''https://github.com/rsc/markdown/issues/1'' [Fin 1]
     = Inr [\<lparr>ID = ''https://github.com/rsc/markdown/issues/2'', Score = Fin 1\<rparr>,
            \<lparr>ID = ''https://github.com/rsc/markdown/issues/1'', Score = Fin 1\<rparr>]"
  by (simp add: related_results_def Search_def Search_step_def top_Add_def VectorResult_cmp_def
      Compare_def Compare_float_def f_ne_def Dot_def ex_poster_def ex_vdb_def ex_env_def Let_def)


lemma ex_run:
  "rs_posts (Poster_Run ex_poster ex_env ex_vdb ex_decode ex_db) =
     [(''rsc/markdown'', 1,
       format_comment ex_env
         [\<lparr>ID = ''https://github.com/rsc/markdown/issues/2'', Score = Fin 1\<rparr>,
          \<lparr>ID = ''https://github.com/rsc/markdown/issues/1'', Score = Fin 1\<rparr>], True)]"
proof -
  have u: "issue_url ex_env ''rsc/markdown'' 1 = ''https://github.com/rsc/markdown/issues/1''"
    by (simp add: issue_url_def ex_env_def)
  have v: "memVectorDB_Get ex_vdb ''https://github.com/rsc/markdown/issues/1'' = Some [Fin 1]"
    by (simp add: memVectorDB_Get_def ex_vdb_def)
  have g: "memDB_Get ex_db (posted_key ''rsc/markdown'' 1) = None"
    by (simp add: memDB_Get_def ex_db_def posted_key_def)
  have pf: "p_projects ex_poster ''rsc/markdown''" "p_timeLimit ex_poster = 0"
    "p_ignores ex_poster = []" "p_post ex_poster"
    by (simp_all add: ex_poster_def)
  have ef: "\<And>s. parse_time ex_env s = Some 1702389459" "\<And>n. post_ok ex_env n"
    by (simp_all add: ex_env_def)
  have isf: "i_State ex_issue = ''open''" "\<not> i_PullRequest ex_issue"
    by (simp_all add: ex_issue_def)
  show ?thesis
    by (simp add: Poster_Run_def ex_events Poster_consider_def Poster_issue_def
        Poster_unposted_def Poster_post_def u v g ex_results pf ef isf Let_def)
qed


theorem Poster_Run_idempotent_witness:
  "(''rsc/markdown'', 1,
    format_comment ex_env
      [\<lparr>ID = ''https://github.com/rsc/markdown/issues/2'', Score = Fin 1\<rparr>,
       \<lparr>ID = ''https://github.com/rsc/markdown/issues/1'', Score = Fin 1\<rparr>], True)
     \<in> set (rs_posts (Poster_Run ex_poster ex_env ex_vdb ex_decode ex_db)) \<and>
   marked (rs_db (Poster_Run ex_poster ex_env ex_vdb ex_decode ex_db)) ''rsc/markdown'' 1 \<and>
   (\<forall>c' ok'. (''rsc/markdown'', 1, c', ok') \<notin>
      set (rs_posts (Poster_Run (ex_poster\<lparr>p_name := ''again''\<rparr>) ex_env ex_vdb ex_decode
             (rs_db (Poster_Run ex_poster ex_env ex_vdb ex_decode ex_db)))))"
proof -
  let ?c = "format_comment ex_env
      [\<lparr>ID = ''https://github.com/rsc/markdown/issues/2'', Score = Fin 1\<rparr>,
       \<lparr>ID = ''https://github.com/rsc/markdown/issues/1'', Score = Fin 1\<rparr>]"
  have posted: "(''rsc/markdown'', 1, ?c, True)
      \<in> set (rs_posts (Poster_Run ex_poster ex_env ex_vdb ex_decode ex_db))"
    by (simp add: ex_run)
  note T = Poster_Run_idempotent [of ex_poster ex_env ex_vdb ex_decode ex_db
      "ex_poster\<lparr>p_name := ''again''\<rparr>" ex_env ex_vdb ex_decode]
  from T [THEN conjunct1] posted
  have m: "marked (rs_db (Poster_Run ex_poster ex_env ex_vdb ex_decode ex_db)) ''rsc/markdown'' 1"
    by blast
  from T [THEN conjunct2, THEN conjunct2, THEN conjunct2] posted
  have n: "\<forall>c' ok'. (''rsc/markdown'', 1, c', ok') \<notin>
      set (rs_posts (Poster_Run (ex_poster\<lparr>p_name := ''again''\<rparr>) ex_env ex_vdb ex_decode
             (rs_db (Poster_Run ex_poster ex_env ex_vdb ex_decode ex_db))))"
    by blast
  from posted m n show ?thesis by (intro conjI)
qed

section \<open>Proofs: the keys of the persisted rows\<close>

lemma mark_old_keys:
  "k \<noteq> w_dkey (Poster_watcher p) \<Longrightarrow> memDB_Get (rs_db (mark_old p t st)) k = memDB_Get (rs_db st) k"
  by (auto simp: mark_old_def MarkOld_def memDB_Get_Set split: sum.splits)

text \<open>
  Claim C8, as amended. The rows are stored under these keys: the project sync state
  under \<open>("githubdl.ProjectSync", project)\<close>; a mirrored event under
  \<open>("githubdl.Event", project, issue, api, id)\<close>, with its time and raw JSON as the value
  and with the index row \<open>("githubdl.EventByTime", modtime, project, issue, api, id)\<close>; a
  vector under \<open>("llm.Vector", namespace, id)\<close>; and the marker of the poster under
  \<open>("triage.Posted", project, issue)\<close>, with an empty value, the only key besides the
  cursor of its watcher that the poster writes.
\<close>

theorem persisted_keys:
  "memDB_Get (projectSync_store JSON db proj) [OStr ''githubdl.ProjectSync'', OStr (Name proj)]
     = Some (JSON proj) \<and>
   set (map fst (projectSync_store JSON db proj))
     = insert [OStr ''githubdl.ProjectSync'', OStr (Name proj)] (set (map fst db)) \<and>
   (\<forall>b' t. writeEvent db b project issue api ident raw clock lastTime = Inr (b', t) \<longrightarrow>
      (\<exists>pre. b' = b @ pre @
          [OpSet [OStr ''githubdl.EventByTime'', OInt t, OStr project, OInt issue, OStr api,
                  OInt ident] [],
           OpSet [OStr ''githubdl.Event'', OStr project, OInt issue, OStr api, OInt ident]
                 [OInt t, ORaw raw]] \<and>
        (pre = [] \<or>
         (\<exists>oldT. pre = [OpDelete [OStr ''githubdl.EventByTime'', OInt oldT, OStr project,
                                   OInt issue, OStr api, OInt ident]])))) \<and>
   vdb_storage (memVectorDB_Set enc vdb docid vec)
     = memDB_Set (vdb_storage vdb) [OStr ''llm.Vector'', OStr (vdb_namespace vdb), OStr docid]
         (enc vec) \<and>
   (results \<noteq> [] \<and> p_post p \<and> post_ok env (length (rs_posts st)) \<longrightarrow>
      memDB_Get (rs_db (Poster_post p env e results st))
        [OStr ''triage.Posted'', OStr (e_Project e), OInt (e_Issue e)] = Some []) \<and>
   (\<forall>k. memDB_Get (rs_db (Poster_post p env e results st)) k \<noteq> memDB_Get (rs_db st) k \<longrightarrow>
      k = [OStr ''triage.Posted'', OStr (e_Project e), OInt (e_Issue e)] \<or>
      k = [OStr ''githubdl.EventWatcher'', OStr (''related.Poster:'' @ p_name p)])"
proof (intro conjI allI impI)
  show "memDB_Get (projectSync_store JSON db proj) [OStr ''githubdl.ProjectSync'', OStr (Name proj)]
     = Some (JSON proj)"
    by (simp add: projectSync_store_def projectSync_key_def memDB_Get_Set)
  show "set (map fst (projectSync_store JSON db proj))
     = insert [OStr ''githubdl.ProjectSync'', OStr (Name proj)] (set (map fst db))"
    by (simp only: projectSync_store_def projectSync_key_def keys_Set)
  show "vdb_storage (memVectorDB_Set enc vdb docid vec)
     = memDB_Set (vdb_storage vdb) [OStr ''llm.Vector'', OStr (vdb_namespace vdb), OStr docid]
         (enc vec)"
    by (simp add: memVectorDB_Set_def vector_key_def)
next
  fix b' t
  assume "writeEvent db b project issue api ident raw clock lastTime = Inr (b', t)"
  then show "\<exists>pre. b' = b @ pre @
          [OpSet [OStr ''githubdl.EventByTime'', OInt t, OStr project, OInt issue, OStr api,
                  OInt ident] [],
           OpSet [OStr ''githubdl.Event'', OStr project, OInt issue, OStr api, OInt ident]
                 [OInt t, ORaw raw]] \<and>
        (pre = [] \<or>
         (\<exists>oldT. pre = [OpDelete [OStr ''githubdl.EventByTime'', OInt oldT, OStr project,
                                   OInt issue, OStr api, OInt ident]]))"
    by (auto simp: writeEvent_def timed_Set_def Let_def event_key_def index_key_def
        primary_key_def split: option.splits)
next
  assume "results \<noteq> [] \<and> p_post p \<and> post_ok env (length (rs_posts st))"
  then show "memDB_Get (rs_db (Poster_post p env e results st))
        [OStr ''triage.Posted'', OStr (e_Project e), OInt (e_Issue e)] = Some []"
    using mark_old_keys [of "posted_key (e_Project e) (e_Issue e)" p]
    by (simp add: Poster_post_def posted_key_def memDB_Get_Set Poster_watcher_def
        EventWatcher_def NewWatcher_def)
next
  fix k
  assume d: "memDB_Get (rs_db (Poster_post p env e results st)) k \<noteq> memDB_Get (rs_db st) k"
  show "k = [OStr ''triage.Posted'', OStr (e_Project e), OInt (e_Issue e)] \<or>
      k = [OStr ''githubdl.EventWatcher'', OStr (''related.Poster:'' @ p_name p)]"
  proof (rule ccontr)
    assume "\<not> ?thesis"
    then have k1: "k \<noteq> posted_key (e_Project e) (e_Issue e)"
      and k2: "k \<noteq> w_dkey (Poster_watcher p)"
      by (auto simp: posted_key_def Poster_watcher_def EventWatcher_def NewWatcher_def)
    have "memDB_Get (rs_db (Poster_post p env e results st)) k = memDB_Get (rs_db st) k"
      using k1 by (simp add: Poster_post_def mark_old_keys [OF k2] memDB_Get_Set)
    with d show False by simp
  qed
qed


theorem persisted_keys_witness:
  "writeEvent [] [] ''rsc/markdown'' 1 ''/issues'' 100 ''{}'' 5 0 =
     Inr ([OpSet [OStr ''githubdl.EventByTime'', OInt 5, OStr ''rsc/markdown'', OInt 1,
                  OStr ''/issues'', OInt 100] [],
           OpSet [OStr ''githubdl.Event'', OStr ''rsc/markdown'', OInt 1, OStr ''/issues'',
                  OInt 100] [OInt 5, ORaw ''{}'']], 5) \<and>
   (\<exists>pre. [OpSet [OStr ''githubdl.EventByTime'', OInt 5, OStr ''rsc/markdown'', OInt 1,
                  OStr ''/issues'', OInt 100] [],
            OpSet [OStr ''githubdl.Event'', OStr ''rsc/markdown'', OInt 1, OStr ''/issues'',
                  OInt 100] [OInt 5, ORaw ''{}'']]
         = [] @ pre @
           [OpSet [OStr ''githubdl.EventByTime'', OInt 5, OStr ''rsc/markdown'', OInt 1,
                   OStr ''/issues'', OInt 100] [],
            OpSet [OStr ''githubdl.Event'', OStr ''rsc/markdown'', OInt 1, OStr ''/issues'',
                   OInt 100] [OInt 5, ORaw ''{}'']]) \<and>
   [\<lparr>ID = ''https://github.com/rsc/markdown/issues/2'', Score = Fin 1\<rparr>] \<noteq> [] \<and>
   p_post ex_poster \<and> post_ok ex_env (length (rs_posts \<lparr>rs_db = ex_db, rs_posts = [], rs_panic = None\<rparr>)) \<and>
   memDB_Get (rs_db (Poster_post ex_poster ex_env
        (ex_decode \<lparr>ModTime = 5, Kind = ''githubdl.Event'', Key = [], Val = []\<rparr>)
        [\<lparr>ID = ''https://github.com/rsc/markdown/issues/2'', Score = Fin 1\<rparr>]
        \<lparr>rs_db = ex_db, rs_posts = [], rs_panic = None\<rparr>))
     [OStr ''triage.Posted'', OStr ''rsc/markdown'', OInt 1] = Some []"
proof -
  let ?b = "[OpSet [OStr ''githubdl.EventByTime'', OInt 5, OStr ''rsc/markdown'', OInt 1,
                  OStr ''/issues'', OInt 100] [],
           OpSet [OStr ''githubdl.Event'', OStr ''rsc/markdown'', OInt 1, OStr ''/issues'',
                  OInt 100] [OInt 5, ORaw ''{}'']]"
  let ?e = "ex_decode \<lparr>ModTime = 5, Kind = ''githubdl.Event'', Key = [], Val = []\<rparr>"
  let ?rs = "[\<lparr>ID = ''https://github.com/rsc/markdown/issues/2'', Score = Fin 1\<rparr>]"
  let ?st = "\<lparr>rs_db = ex_db, rs_posts = [], rs_panic = None\<rparr>"
  note T = persisted_keys [of _ "[]" _ "[]" "''rsc/markdown''" 1 "''/issues''" 100 "''{}''" 5 0
      _ _ _ _ ?rs ex_poster ex_env ?st ?e]
  have w: "writeEvent [] [] ''rsc/markdown'' 1 ''/issues'' 100 ''{}'' 5 0 = Inr (?b, 5)"
    by (simp add: writeEvent_def timed_Set_def now_def memDB_Get_def event_key_def
        index_key_def primary_key_def Let_def)
  from T [THEN conjunct2, THEN conjunct2, THEN conjunct1] w
  have 1: "\<exists>pre. ?b = [] @ pre @ ?b"
    by blast
  have h: "?rs \<noteq> []" "p_post ex_poster" "post_ok ex_env (length (rs_posts ?st))"
    by (simp_all add: ex_poster_def ex_env_def)
  have ev: "e_Project ?e = ''rsc/markdown''" "e_Issue ?e = 1"
    by (simp_all add: ex_decode_def)
  from T [THEN conjunct2, THEN conjunct2, THEN conjunct2, THEN conjunct2, THEN conjunct1] h
  have 2: "memDB_Get (rs_db (Poster_post ex_poster ex_env ?e ?rs ?st))
     [OStr ''triage.Posted'', OStr ''rsc/markdown'', OInt 1] = Some []"
    by (simp only: ev) blast
  from w 1 h 2 show ?thesis by (intro conjI)
qed

theorem persisted_keys_counterexample:
  "writeEvent [] [] ''rsc/markdown'' 1 ''/issues'' 100 ''{}'' 5 0 =
     Inr ([OpSet [OStr ''githubdl.EventByTime'', OInt 5, OStr ''rsc/markdown'', OInt 1,
                  OStr ''/issues'', OInt 100] [],
           OpSet [OStr ''githubdl.Event'', OStr ''rsc/markdown'', OInt 1, OStr ''/issues'',
                  OInt 100] [OInt 5, ORaw ''{}'']], 5) \<and>
   memDB_Get (memBatch_Apply
       [OpSet [OStr ''githubdl.EventByTime'', OInt 5, OStr ''rsc/markdown'', OInt 1,
               OStr ''/issues'', OInt 100] [],
        OpSet [OStr ''githubdl.Event'', OStr ''rsc/markdown'', OInt 1, OStr ''/issues'',
               OInt 100] [OInt 5, ORaw ''{}'']] [])
     [OStr ''Event'', OStr ''rsc/markdown'', OInt 1, OStr ''/issues'', OInt 100] = None \<and>
   projectSync_key ''rsc/markdown'' \<noteq> [OStr ''ProjectSync'', OStr ''rsc/markdown''] \<and>
   vector_key ''ns'' ''doc'' \<noteq> [OStr ''Vector'', OStr ''ns'', OStr ''doc''] \<and>
   posted_key ''rsc/markdown'' 1 \<noteq> [OStr ''Posted'', OStr ''rsc/markdown'', OInt 1]"
  by (simp add: writeEvent_def timed_Set_def now_def memDB_Get_def event_key_def
      index_key_def primary_key_def Let_def memBatch_Apply_def memDB_Set_def memDB_Delete_def
      projectSync_key_def vector_key_def posted_key_def)

section \<open>Proofs: the comment fixer\<close>















lemma ReplaceText_blank:
  "map blank (fst (fixInlines (ReplaceText re) link xs)) = map blank xs"
  "map blank (fst (fixInline (ReplaceText re) link x)) = [blank x]"
  "blank (fst (fixInner (ReplaceText re) link x)) = blank x"
proof (induction "ReplaceText re" link xs and "ReplaceText re" link x and "ReplaceText re" link x
    rule: fixInlines_fixInline_fixInner.induct)
  case (2 link x xs)
  then show ?case
    by (auto split: prod.splits)
next
  case (3 link x)
  obtain x' c where i: "fixInner (ReplaceText re) link x = (x', c)"
    by (cases "fixInner (ReplaceText re) link x") auto
  with 3 have b: "blank x' = blank x" by simp
  have key: "map blank (fst (case ReplaceText re x' fl of
        FixNil \<Rightarrow> ([x'], c) | FixInline y \<Rightarrow> ([y], True)
      | FixInlines ys \<Rightarrow> (ys, True) | FixInvalid \<Rightarrow> ([x'], c))) = [blank x']" for fl
    by (cases x') simp_all
  have "fixInline (ReplaceText re) link x =
      (case ReplaceText re x' (if link > 0 then flagLink else 0) of
        FixNil \<Rightarrow> ([x'], c) | FixInline y \<Rightarrow> ([y], True)
      | FixInlines ys \<Rightarrow> (ys, True) | FixInvalid \<Rightarrow> ([x'], c))"
    using i by simp
  then show ?case
    by (simp only: key b)
qed (auto split: prod.splits)


lemma ReplaceText_blank_block:
  "blank_block (fst (fixBlock (ReplaceText re) b)) = blank_block b"
  "map blank_block (fst (fixBlocks (ReplaceText re) bs)) = map blank_block bs"
proof (induction "ReplaceText re" b and "ReplaceText re" bs rule: fixBlock_fixBlocks.induct)
  case (5 inl)
  then show ?case
    using ReplaceText_blank(1) [of re 0 inl] by (auto split: prod.splits)
next
  case (6 inl)
  then show ?case
    using ReplaceText_blank(1) [of re 0 inl] by (auto split: prod.splits)
next
  case (7 inl)
  then show ?case
    using ReplaceText_blank(1) [of re 0 inl] by (auto split: prod.splits)
qed (auto split: prod.splits)

lemma ReplaceText_Fix_doc:
  "blank_block (fst (Fix_doc (map ReplaceText res) doc)) = blank_block doc"
proof (induction res arbitrary: doc)
  case Nil
  show ?case by simp
next
  case (Cons re res)
  obtain doc1 c1 where d: "fixOne (ReplaceText re) doc = (doc1, c1)"
    by (cases "fixOne (ReplaceText re) doc") auto
  then have "blank_block doc1 = blank_block doc"
    using ReplaceText_blank_block(1) [of re doc] by (simp add: fixOne_def)
  with Cons [of doc1] d show ?case
    by (auto split: prod.splits)
qed

lemma zones_blank:
  "zones (blank x) = zones x"
  by (induction x) (auto simp: map_idI cong: map_cong)

lemma zones_blank_list: "concat (map (zones \<circ> blank) xs) = concat (map zones xs)"
  by (induction xs) (simp_all add: zones_blank)

lemma block_zones_blank: "block_zones (blank_block b) = block_zones b"
proof (induction b)
  case (Document bs)
  then show ?case by (induction bs) simp_all
next
  case (Quote bs)
  then show ?case by (induction bs) simp_all
next
  case (BList bs)
  then show ?case by (induction bs) simp_all
next
  case (Item bs)
  then show ?case by (induction bs) simp_all
qed (simp_all add: zones_blank_list)

lemma blank_block_zones:
  "blank_block a = blank_block b \<Longrightarrow> block_zones a = block_zones b"
  using block_zones_blank [of a] block_zones_blank [of b] by simp

text \<open>
  Claim C9. For any list of ReplaceText rules, the document that \<^verbatim>\<open>Fix\<close> prints
  differs from the parsed one at most in the plain text that the walk visits: with that
  text blanked the two are equal. In particular the text of every code span, the lines
  of every code block and the URL of every link and autolink are as they were, in the
  same order.
\<close>

theorem ReplaceText_safe_zones:
  "blank_block (fst (Fix_doc (map ReplaceText res) doc)) = blank_block doc \<and>
   block_zones (fst (Fix_doc (map ReplaceText res) doc)) = block_zones doc \<and>
   (\<forall>out. Fix Parse ToMarkdown (map ReplaceText res) text = (out, True) \<longrightarrow>
      (\<exists>doc'. out = ToMarkdown doc' \<and> blank_block doc' = blank_block (Parse text) \<and>
              block_zones doc' = block_zones (Parse text)))"
proof (intro conjI allI impI)
  show b: "blank_block (fst (Fix_doc (map ReplaceText res) doc)) = blank_block doc" for doc
    by (rule ReplaceText_Fix_doc)
  show z: "block_zones (fst (Fix_doc (map ReplaceText res) doc)) = block_zones doc" for doc
    using b [of doc] by (rule blank_block_zones)
  fix out
  assume "Fix Parse ToMarkdown (map ReplaceText res) text = (out, True)"
  then have "out = ToMarkdown (fst (Fix_doc (map ReplaceText res) (Parse text)))"
    by (cases "Fix_doc (map ReplaceText res) (Parse text)") (auto simp: Fix_def split: if_splits)
  with b [of "Parse text"] z [of "Parse text"]
  show "\<exists>doc'. out = ToMarkdown doc' \<and> blank_block doc' = blank_block (Parse text) \<and>
              block_zones doc' = block_zones (Parse text)"
    by blast
qed

theorem ReplaceText_safe_zones_witness:
  "fst (Fix_doc (map ReplaceText [cancelled_rule]) text_doc) =
     Document
       [Paragraph [Plain ''canceled'', Code ''cancelled'',
                   Link [Plain ''canceled''] ''https://go.dev/cancelled'',
                   AutoLink ''https://go.dev/cancelled'' ''https://go.dev/cancelled''],
        CodeBlock [''cancelled'']] \<and>
   block_zones (fst (Fix_doc (map ReplaceText [cancelled_rule]) text_doc))
     = [''cancelled'', ''https://go.dev/cancelled'', ''https://go.dev/cancelled'', ''cancelled''] \<and>
   Fix ex_Parse ex_ToMarkdown (map ReplaceText [cancelled_rule]) ''other'' = (''text'', True) \<and>
   (\<exists>doc'. ''text'' = ex_ToMarkdown doc' \<and> blank_block doc' = blank_block (ex_Parse ''other'') \<and>
           block_zones doc' = block_zones (ex_Parse ''other''))"
proof -
  have run: "fst (Fix_doc (map ReplaceText [cancelled_rule]) text_doc) =
     Document
       [Paragraph [Plain ''canceled'', Code ''cancelled'',
                   Link [Plain ''canceled''] ''https://go.dev/cancelled'',
                   AutoLink ''https://go.dev/cancelled'' ''https://go.dev/cancelled''],
        CodeBlock [''cancelled'']]"
    by (simp add: fixOne_def text_doc_def flagLink_def cancelled_rule_def)
  note T = ReplaceText_safe_zones [of "[cancelled_rule]" text_doc ex_Parse ex_ToMarkdown "''other''"]
  have "block_zones text_doc
     = [''cancelled'', ''https://go.dev/cancelled'', ''https://go.dev/cancelled'', ''cancelled'']"
    by (simp add: text_doc_def)
  with T [THEN conjunct2, THEN conjunct1]
  have z: "block_zones (fst (Fix_doc (map ReplaceText [cancelled_rule]) text_doc))
     = [''cancelled'', ''https://go.dev/cancelled'', ''https://go.dev/cancelled'', ''cancelled'']"
    by simp
  have f: "Fix ex_Parse ex_ToMarkdown (map ReplaceText [cancelled_rule]) ''other'' = (''text'', True)"
    by (simp add: Fix_def ex_Parse_def ex_ToMarkdown_def fixOne_def text_doc_def code_doc_def
        flagLink_def cancelled_rule_def)
  with T [THEN conjunct2, THEN conjunct2]
  have e: "\<exists>doc'. ''text'' = ex_ToMarkdown doc' \<and> blank_block doc' = blank_block (ex_Parse ''other'') \<and>
           block_zones doc' = block_zones (ex_Parse ''other'')"
    by blast
  from run z f e show ?thesis by (intro conjI)
qed

end
